theory Spec2Isabelle
  imports Complex_Main "HOL-Library.Word"
begin

unbundle bit_operations_syntax

section \<open>The buffer-oriented string engine of cms-embedded-utils\<close>

text \<open>
  The engine (\<^verbatim>\<open>cmsStringUtil.cpp\<close>, namespace \<^verbatim>\<open>cms::string\<close>) works on raw
  \<^verbatim>\<open>char\<close> arrays supplied by the caller.  An array is a list of bytes whose length is
  the physical size of the array; a position in it is a natural number.  The string held
  by an array is the run of bytes before its first zero byte.

  The library targets 32-bit microcontrollers (ESP32, STM32, Arduino): \<^verbatim>\<open>long\<close> and
  \<^verbatim>\<open>unsigned long\<close> are 32 bits wide, and so is \<^verbatim>\<open>size_t\<close>.  Sizes and positions
  are natural numbers; the one subtraction of the source that can wrap on a well-typed
  input, \<^verbatim>\<open>maxLen - 1\<close> at \<^verbatim>\<open>maxLen = 0\<close>, is written with \<open>size_sub\<close>.

  Pointer parameters are the arrays they point to.  The guards against a null pointer are
  modelled for the read-only queries of the section on malformed input, where a pointer
  is an \<open>option\<close>; the mutating primitives are modelled on an existing array.
\<close>

type_synonym byte = "8 word"

definition bytes :: "string \<Rightarrow> byte list" where
  "bytes s = map of_char s"

text \<open>Reading a \<^verbatim>\<open>char\<close> through a pointer into an array.  No function below reads past
  the terminator of a terminated array; a read past the array itself yields the
  terminator, which keeps every scanning loop total.\<close>

definition rd :: "byte list \<Rightarrow> nat \<Rightarrow> byte" where
  "rd buf i = (if i < length buf then buf ! i else 0)"

text \<open>The string starting at position \<open>p\<close> of an array.\<close>

definition cstr :: "byte list \<Rightarrow> nat \<Rightarrow> byte list" where
  "cstr buf p = takeWhile (\<lambda>b. b \<noteq> 0) (drop p buf)"

text \<open>\<^verbatim>\<open>memcpy(dst + d, src, n)\<close> and \<^verbatim>\<open>memmove(buf + d, buf + s, n)\<close>.  A copy that ran
  past the end of the destination would lengthen the list.\<close>

definition memcpy :: "byte list \<Rightarrow> nat \<Rightarrow> byte list \<Rightarrow> nat \<Rightarrow> byte list" where
  "memcpy dst d src n = take d dst @ take n src @ drop (d + n) dst"

definition memmove :: "byte list \<Rightarrow> nat \<Rightarrow> nat \<Rightarrow> nat \<Rightarrow> byte list" where
  "memmove buf d s n = take d buf @ take n (drop s buf) @ drop (d + n) buf"

definition size_sub :: "nat \<Rightarrow> nat \<Rightarrow> nat" where
  "size_sub a b = (if b \<le> a then a - b else a + 2 ^ 32 - b)"

subsection \<open>append\<close>

definition append_str :: "byte list \<Rightarrow> nat \<Rightarrow> nat \<Rightarrow> byte list \<Rightarrow> nat \<Rightarrow> byte list \<times> nat" where
  "append_str buffer maxLen curLen src srcLen =
     (if srcLen = 0 \<or> curLen \<ge> size_sub maxLen 1 then (buffer, curLen)
      else
        let available = maxLen - 1 - curLen;
            toCopy = (if srcLen < available then srcLen else available)
        in if toCopy > 0
           then let buffer1 = memcpy buffer curLen src toCopy;
                    curLen1 = curLen + toCopy
                in (buffer1[curLen1 := 0], curLen1)
           else (buffer, curLen))"

text \<open>Modelled from the spec: \<^verbatim>\<open>utilization()\<close> is a member of \<^verbatim>\<open>StringBase\<close>
  (\<^verbatim>\<open>cmsStringBase.h\<close>), which is not among the sources.  The spec gives it as the
  length over the capacity as a percentage, with one byte of the capacity reserved for
  the terminator.  The value is the exact quotient; the rounding of \<^verbatim>\<open>float\<close> is not
  modelled.\<close>

definition utilization :: "nat \<Rightarrow> nat \<Rightarrow> real" where
  "utilization n capacity = real n / real (capacity - 1) * 100"

text \<open>An empty \<^verbatim>\<open>String<N>\<close>: the constructor writes the terminator into the first byte
  only; the model takes the other bytes as zero.\<close>

definition emptyString :: "nat \<Rightarrow> byte list" where
  "emptyString N = replicate N 0"

subsection \<open>split\<close>

text \<open>The destructive form writes terminators into the array and stores the start of
  every piece in \<open>tokens\<close>, an array of positions.\<close>

function split_loop :: "byte list \<Rightarrow> byte \<Rightarrow> nat list \<Rightarrow> nat \<Rightarrow> nat \<Rightarrow> nat
    \<Rightarrow> byte list \<times> nat list \<times> nat" where
  "split_loop str delimiter tokens maxTokens count p =
     (if rd str p = 0 then (str, tokens, count)
      else if rd str p = delimiter
      then (if count < maxTokens
            then split_loop (str[p := 0]) delimiter (tokens[count := p + 1]) maxTokens
                   (count + 1) (p + 1)
            else (str, tokens, count))
      else split_loop str delimiter tokens maxTokens count (p + 1))"
  by pat_completeness auto
termination
  by (relation "measure (\<lambda>(str, delimiter, tokens, maxTokens, count, p). length str - p)")
     (auto simp: rd_def split: if_splits)

declare split_loop.simps [simp del]

definition split_destructive :: "byte list \<Rightarrow> byte \<Rightarrow> nat list \<Rightarrow> nat
    \<Rightarrow> byte list \<times> nat list \<times> nat" where
  "split_destructive str delimiter tokens maxTokens =
     (if maxTokens = 0 then (str, tokens, 0)
      else split_loop str delimiter (tokens[0 := 0]) maxTokens 1 0)"

text \<open>The non-destructive form fills an array of \<^verbatim>\<open>Token\<close> views.\<close>

record Token =
  ptr :: nat
  len :: nat

function token_loop :: "byte list \<Rightarrow> byte \<Rightarrow> Token list \<Rightarrow> nat \<Rightarrow> nat \<Rightarrow> nat \<Rightarrow> nat
    \<Rightarrow> Token list \<times> nat \<times> nat \<times> nat" where
  "token_loop str delimiter tokens maxTokens count start p =
     (if rd str p = 0 then (tokens, count, start, p)
      else if rd str p = delimiter
      then (if count < maxTokens - 1
            then token_loop str delimiter (tokens[count := \<lparr>ptr = start, len = p - start\<rparr>])
                   maxTokens (count + 1) (p + 1) (p + 1)
            else (tokens, count, start, p))
      else token_loop str delimiter tokens maxTokens count start (p + 1))"
  by pat_completeness auto
termination
  by (relation "measure (\<lambda>(str, delimiter, tokens, maxTokens, count, start, p). length str - p)")
     (auto simp: rd_def split: if_splits)

declare token_loop.simps [simp del]

definition split_token :: "byte list \<Rightarrow> byte \<Rightarrow> Token list \<Rightarrow> nat \<Rightarrow> Token list \<times> nat" where
  "split_token str delimiter tokens maxTokens =
     (if maxTokens = 0 then (tokens, 0)
      else case token_loop str delimiter tokens maxTokens 0 0 0 of
             (tokens1, count, start, p) \<Rightarrow>
               (tokens1[count := \<lparr>ptr = start, len = p - start\<rparr>], count + 1))"

text \<open>The text of a piece: the string at a stored position, and the bytes a view covers.\<close>

definition piece :: "byte list \<Rightarrow> nat \<Rightarrow> byte list" where
  "piece str p = cstr str p"

definition token_text :: "byte list \<Rightarrow> Token \<Rightarrow> byte list" where
  "token_text str t = take (len t) (drop (ptr t) str)"

subsection \<open>Integer to text\<close>

definition digitsTable :: "byte list" where
  "digitsTable = bytes
     (''0001020304050607080910111213141516171819'' @
      ''2021222324252627282930313233343536373839'' @
      ''4041424344454647484950515253545556575859'' @
      ''6061626364656667686970717273747576777879'' @
      ''8081828384858687888990919293949596979899'')"

definition digitsCount_dec :: "32 word \<Rightarrow> int" where
  "digitsCount_dec uval =
     (if uval < 10 then 1
      else if uval < 100 then 2
      else if uval < 1000 then 3
      else if uval < 10000 then 4
      else if uval < 100000 then 5
      else if uval < 1000000 then 6
      else if uval < 10000000 then 7
      else if uval < 100000000 then 8
      else if uval < 1000000000 then 9
      else 10)"

text \<open>\<^verbatim>\<open>while (v >= 100)\<close>: two digits per round, written right to left.\<close>

function uint_pairs :: "byte list \<Rightarrow> nat \<Rightarrow> 32 word \<Rightarrow> byte list \<times> nat \<times> 32 word" where
  "uint_pairs buffer writeIdx v =
     (if v \<ge> 100
      then uint_pairs
             (buffer[writeIdx - 1 := digitsTable ! (unat (push_bit 1 (v mod 100)) + 1),
                     writeIdx - 2 := digitsTable ! unat (push_bit 1 (v mod 100))])
             (writeIdx - 2) (v div 100)
      else (buffer, writeIdx, v))"
  by pat_completeness auto
termination
  by (relation "measure (\<lambda>(buffer, writeIdx, v). unat v)")
     (auto simp: unat_div word_le_nat_alt)

declare uint_pairs.simps [simp del]

text \<open>\<^verbatim>\<open>while (writeIdx > startIdx) buffer[--writeIdx] = padChar\<close>.\<close>

function pad_loop :: "byte list \<Rightarrow> nat \<Rightarrow> nat \<Rightarrow> byte \<Rightarrow> byte list" where
  "pad_loop buffer writeIdx startIdx padChar =
     (if writeIdx > startIdx
      then pad_loop (buffer[writeIdx - 1 := padChar]) (writeIdx - 1) startIdx padChar
      else buffer)"
  by pat_completeness auto
termination
  by (relation "measure (\<lambda>(buffer, writeIdx, startIdx, padChar). writeIdx)") auto

declare pad_loop.simps [simp del]

text \<open>The one or two digits left after the pairs.\<close>

definition uint_tail :: "byte list \<Rightarrow> nat \<Rightarrow> 32 word \<Rightarrow> byte list \<times> nat" where
  "uint_tail buffer writeIdx v =
     (if v \<ge> 10
      then (buffer[writeIdx - 1 := digitsTable ! (unat (push_bit 1 v) + 1),
                   writeIdx - 2 := digitsTable ! unat (push_bit 1 v)], writeIdx - 2)
      else (buffer[writeIdx - 1 := ucast (v + 48)], writeIdx - 1))"

definition appendUIntInternal :: "byte list \<Rightarrow> nat \<Rightarrow> nat \<Rightarrow> 32 word \<Rightarrow> int \<Rightarrow> byte
    \<Rightarrow> byte list \<times> nat" where
  "appendUIntInternal buffer maxLen curLen uval width padChar =
     (let digitsCount = digitsCount_dec uval;
          totalLen = (if digitsCount > width then digitsCount else width)
      in if curLen + nat totalLen \<ge> maxLen then (buffer, curLen)
         else
           let startIdx = curLen;
               writeIdx = curLen + nat totalLen;
               buffer1 = buffer[writeIdx := 0]
           in case uint_pairs buffer1 writeIdx uval of
                (buffer2, writeIdx2, v) \<Rightarrow>
                  (case uint_tail buffer2 writeIdx2 v of
                     (buffer3, writeIdx3) \<Rightarrow>
                       (pad_loop buffer3 writeIdx3 startIdx padChar, writeIdx)))"

text \<open>\<^verbatim>\<open>while (temp > 0) { temp >>= 4; digitsCount++; }\<close>.\<close>

function hex_count :: "32 word \<Rightarrow> int \<Rightarrow> int" where
  "hex_count temp digitsCount =
     (if temp > 0 then hex_count (drop_bit 4 temp) (digitsCount + 1) else digitsCount)"
  by pat_completeness auto
termination
  by (relation "measure (\<lambda>(temp, digitsCount). unat temp)")
     (auto simp: word_less_nat_alt drop_bit_eq_div unat_div)

declare hex_count.simps [simp del]

definition digitsCount_hex :: "32 word \<Rightarrow> int" where
  "digitsCount_hex uval = (if uval = 0 then 1 else hex_count uval 0)"

definition hexChars :: "bool \<Rightarrow> byte list" where
  "hexChars uppercase = (if uppercase then bytes ''0123456789ABCDEF'' else bytes ''0123456789abcdef'')"

text \<open>\<^verbatim>\<open>for (int i = 0; i < digitsCount; ++i)\<close>, with \<open>k\<close> the rounds still to run.\<close>

fun hex_loop :: "bool \<Rightarrow> nat \<Rightarrow> byte list \<Rightarrow> nat \<Rightarrow> 32 word \<Rightarrow> byte list \<times> nat" where
  "hex_loop uppercase 0 buffer writeIdx v = (buffer, writeIdx)"
| "hex_loop uppercase (Suc k) buffer writeIdx v =
     hex_loop uppercase k (buffer[writeIdx - 1 := hexChars uppercase ! unat (v AND 0xF)])
       (writeIdx - 1) (drop_bit 4 v)"

definition appendHexInternal :: "byte list \<Rightarrow> nat \<Rightarrow> nat \<Rightarrow> 32 word \<Rightarrow> int \<Rightarrow> byte \<Rightarrow> bool
    \<Rightarrow> byte list \<times> nat" where
  "appendHexInternal buffer maxLen curLen uval width padChar uppercase =
     (let digitsCount = digitsCount_hex uval;
          totalLen = (if digitsCount > width then digitsCount else width)
      in if curLen + nat totalLen \<ge> maxLen then (buffer, curLen)
         else
           let startIdx = curLen;
               writeIdx = curLen + nat totalLen;
               buffer1 = buffer[writeIdx := 0]
           in case hex_loop uppercase (nat digitsCount) buffer1 writeIdx uval of
                (buffer2, writeIdx2) \<Rightarrow> (pad_loop buffer2 writeIdx2 startIdx padChar, writeIdx))"

text \<open>Arithmetic on \<^verbatim>\<open>long\<close> is undefined when it overflows: the signed operations of
  \<^verbatim>\<open>appendInt\<close> return \<open>None\<close> there, and so does \<^verbatim>\<open>appendInt\<close>.\<close>

definition long_add :: "32 word \<Rightarrow> 32 word \<Rightarrow> 32 word option" where
  "long_add a b =
     (if - (2 ^ 31) \<le> sint a + sint b \<and> sint a + sint b < 2 ^ 31 then Some (a + b) else None)"

definition long_neg :: "32 word \<Rightarrow> 32 word option" where
  "long_neg a = (if sint a = - (2 ^ 31) then None else Some (- a))"

definition appendInt :: "byte list \<Rightarrow> nat \<Rightarrow> nat \<Rightarrow> 32 word \<Rightarrow> int \<Rightarrow> byte
    \<Rightarrow> (byte list \<times> nat) option" where
  "appendInt buffer maxLen curLen val width padChar =
     (if curLen \<ge> size_sub maxLen 1 then Some (buffer, curLen)
      else if sint val < 0
      then (case long_add val 1 of
              None \<Rightarrow> None
            | Some v1 \<Rightarrow>
                (case long_neg v1 of
                   None \<Rightarrow> None
                 | Some v2 \<Rightarrow>
                     Some (appendUIntInternal (buffer[curLen := 0x2D]) maxLen (curLen + 1)
                             (v2 + 1) (if width > 0 then width - 1 else 0) padChar)))
      else Some (appendUIntInternal buffer maxLen curLen val width padChar))"

subsection \<open>UTF-8 validation and sanitizing\<close>

text \<open>One round of the loop of \<^verbatim>\<open>validateUtf8\<close>: the number of bytes to advance, or
  \<open>None\<close> where the source returns false.\<close>

definition validate_step :: "byte list \<Rightarrow> nat \<Rightarrow> nat option" where
  "validate_step str i =
     (if rd str i \<le> 0x7F then Some 1
      else if 0xC2 \<le> rd str i \<and> rd str i \<le> 0xDF
      then (if rd str (i + 1) AND 0xC0 \<noteq> 0x80 then None else Some 2)
      else if rd str i = 0xE0
      then (if rd str (i + 1) < 0xA0 \<or> rd str (i + 1) > 0xBF
               \<or> rd str (i + 2) AND 0xC0 \<noteq> 0x80 then None else Some 3)
      else if 0xE1 \<le> rd str i \<and> rd str i \<le> 0xEC
      then (if rd str (i + 1) AND 0xC0 \<noteq> 0x80
               \<or> rd str (i + 2) AND 0xC0 \<noteq> 0x80 then None else Some 3)
      else if rd str i = 0xED
      then (if rd str (i + 1) < 0x80 \<or> rd str (i + 1) > 0x9F
               \<or> rd str (i + 2) AND 0xC0 \<noteq> 0x80 then None else Some 3)
      else if 0xEE \<le> rd str i \<and> rd str i \<le> 0xEF
      then (if rd str (i + 1) AND 0xC0 \<noteq> 0x80
               \<or> rd str (i + 2) AND 0xC0 \<noteq> 0x80 then None else Some 3)
      else if rd str i = 0xF0
      then (if rd str (i + 1) < 0x90 \<or> rd str (i + 1) > 0xBF
               \<or> rd str (i + 2) AND 0xC0 \<noteq> 0x80
               \<or> rd str (i + 3) AND 0xC0 \<noteq> 0x80 then None else Some 4)
      else if 0xF1 \<le> rd str i \<and> rd str i \<le> 0xF3
      then (if rd str (i + 1) AND 0xC0 \<noteq> 0x80
               \<or> rd str (i + 2) AND 0xC0 \<noteq> 0x80
               \<or> rd str (i + 3) AND 0xC0 \<noteq> 0x80 then None else Some 4)
      else if rd str i = 0xF4
      then (if rd str (i + 1) < 0x80 \<or> rd str (i + 1) > 0x8F
               \<or> rd str (i + 2) AND 0xC0 \<noteq> 0x80
               \<or> rd str (i + 3) AND 0xC0 \<noteq> 0x80 then None else Some 4)
      else None)"

function validate_loop :: "byte list \<Rightarrow> nat \<Rightarrow> bool" where
  "validate_loop str i =
     (if rd str i = 0 then True
      else case validate_step str i of
             None \<Rightarrow> False
           | Some k \<Rightarrow> validate_loop str (i + k))"
  by pat_completeness auto
termination
  by (relation "measure (\<lambda>(str, i). length str - i)")
     (auto simp: rd_def validate_step_def split: if_splits)

declare validate_loop.simps [simp del]

definition validateUtf8 :: "byte list \<Rightarrow> bool" where
  "validateUtf8 str = validate_loop str 0"

text \<open>The state of the loop of \<^verbatim>\<open>sanitizeUtf8\<close> is the array with the read position
  \<open>src\<close> and the write position \<open>dst\<close>.  \<open>copy1\<close> is \<^verbatim>\<open>*dst++ = *src++\<close>;
  \<open>copy_seq k\<close> is the capacity check of a valid sequence of \<open>k\<close> bytes followed by
  \<open>k\<close> such copies; \<open>put_replacement\<close> is the block every invalid case repeats.
  \<open>None\<close> is \<^verbatim>\<open>break\<close>.\<close>

definition copy1 :: "byte list \<times> nat \<times> nat \<Rightarrow> byte list \<times> nat \<times> nat" where
  "copy1 s = (case s of (str, src, dst) \<Rightarrow> (str[dst := rd str src], src + 1, dst + 1))"

definition copy_seq :: "nat \<Rightarrow> byte list \<Rightarrow> nat \<Rightarrow> nat \<Rightarrow> nat
    \<Rightarrow> (byte list \<times> nat \<times> nat) option" where
  "copy_seq k str maxLen src dst =
     (if dst + k \<ge> maxLen then None else Some ((copy1 ^^ k) (str, src, dst)))"

definition replacement :: "byte list" where
  "replacement = [0xEF, 0xBF, 0xBD]"

definition put_replacement :: "byte list \<Rightarrow> nat \<Rightarrow> nat \<Rightarrow> nat
    \<Rightarrow> (byte list \<times> nat \<times> nat) option" where
  "put_replacement str maxLen src dst =
     (if dst + 3 < maxLen then Some (memcpy str dst replacement 3, src + 1, dst + 3)
      else if dst < maxLen - 1 then Some (str[dst := 0x3F], src + 1, dst + 1)
      else None)"

definition sanitize_step :: "byte list \<Rightarrow> nat \<Rightarrow> nat \<Rightarrow> nat
    \<Rightarrow> (byte list \<times> nat \<times> nat) option" where
  "sanitize_step str maxLen src dst =
     (if rd str src \<le> 0x7F
      then (if dst \<ge> maxLen - 1 then None else Some (copy1 (str, src, dst)))
      else if 0xC2 \<le> rd str src \<and> rd str src \<le> 0xDF
      then (if rd str (src + 1) \<noteq> 0 \<and> rd str (src + 1) AND 0xC0 = 0x80
            then copy_seq 2 str maxLen src dst else put_replacement str maxLen src dst)
      else if rd str src = 0xE0
      then (if rd str (src + 1) \<noteq> 0 \<and> rd str (src + 2) \<noteq> 0
               \<and> rd str (src + 1) \<ge> 0xA0 \<and> rd str (src + 1) \<le> 0xBF
               \<and> rd str (src + 2) AND 0xC0 = 0x80
            then copy_seq 3 str maxLen src dst else put_replacement str maxLen src dst)
      else if 0xE1 \<le> rd str src \<and> rd str src \<le> 0xEC
      then (if rd str (src + 1) \<noteq> 0 \<and> rd str (src + 2) \<noteq> 0
               \<and> rd str (src + 1) AND 0xC0 = 0x80
               \<and> rd str (src + 2) AND 0xC0 = 0x80
            then copy_seq 3 str maxLen src dst else put_replacement str maxLen src dst)
      else if rd str src = 0xED
      then (if rd str (src + 1) \<noteq> 0 \<and> rd str (src + 2) \<noteq> 0
               \<and> rd str (src + 1) \<ge> 0x80 \<and> rd str (src + 1) \<le> 0x9F
               \<and> rd str (src + 2) AND 0xC0 = 0x80
            then copy_seq 3 str maxLen src dst else put_replacement str maxLen src dst)
      else if 0xEE \<le> rd str src \<and> rd str src \<le> 0xEF
      then (if rd str (src + 1) \<noteq> 0 \<and> rd str (src + 2) \<noteq> 0
               \<and> rd str (src + 1) AND 0xC0 = 0x80
               \<and> rd str (src + 2) AND 0xC0 = 0x80
            then copy_seq 3 str maxLen src dst else put_replacement str maxLen src dst)
      else if rd str src = 0xF0
      then (if rd str (src + 1) \<noteq> 0 \<and> rd str (src + 2) \<noteq> 0 \<and> rd str (src + 3) \<noteq> 0
               \<and> rd str (src + 1) \<ge> 0x90 \<and> rd str (src + 1) \<le> 0xBF
               \<and> rd str (src + 2) AND 0xC0 = 0x80
               \<and> rd str (src + 3) AND 0xC0 = 0x80
            then copy_seq 4 str maxLen src dst else put_replacement str maxLen src dst)
      else if 0xF1 \<le> rd str src \<and> rd str src \<le> 0xF3
      then (if rd str (src + 1) \<noteq> 0 \<and> rd str (src + 2) \<noteq> 0 \<and> rd str (src + 3) \<noteq> 0
               \<and> rd str (src + 1) AND 0xC0 = 0x80
               \<and> rd str (src + 2) AND 0xC0 = 0x80
               \<and> rd str (src + 3) AND 0xC0 = 0x80
            then copy_seq 4 str maxLen src dst else put_replacement str maxLen src dst)
      else if rd str src = 0xF4
      then (if rd str (src + 1) \<noteq> 0 \<and> rd str (src + 2) \<noteq> 0 \<and> rd str (src + 3) \<noteq> 0
               \<and> rd str (src + 1) \<ge> 0x80 \<and> rd str (src + 1) \<le> 0x8F
               \<and> rd str (src + 2) AND 0xC0 = 0x80
               \<and> rd str (src + 3) AND 0xC0 = 0x80
            then copy_seq 4 str maxLen src dst else put_replacement str maxLen src dst)
      else put_replacement str maxLen src dst)"

lemma copy1_dst: "(copy1 ^^ k) (str, src, dst) = (str1, src1, dst1) \<Longrightarrow> dst1 = dst + k"
proof (induction k arbitrary: str1 src1 dst1)
  case 0
  then show ?case by simp
next
  case (Suc k)
  obtain a b c where e: "(copy1 ^^ k) (str, src, dst) = (a, b, c)"
    by (cases "(copy1 ^^ k) (str, src, dst)") auto
  from Suc.prems have "copy1 ((copy1 ^^ k) (str, src, dst)) = (str1, src1, dst1)" by simp
  then have "copy1 (a, b, c) = (str1, src1, dst1)" by (simp only: e)
  then have "dst1 = c + 1" by (simp add: copy1_def)
  with Suc.IH [OF e] show ?case by simp
qed

lemma sanitize_step_forms:
  "sanitize_step str maxLen src dst \<in>
     {(if dst \<ge> maxLen - 1 then None else Some (copy1 (str, src, dst))),
      copy_seq 2 str maxLen src dst, copy_seq 3 str maxLen src dst,
      copy_seq 4 str maxLen src dst, put_replacement str maxLen src dst}"
  unfolding sanitize_step_def
  by (simp only: insert_iff simp_thms
        if_split [where P = "\<lambda>x. x = a \<or> x = b \<or> x = c \<or> x = d \<or> x = e \<or> x \<in> {}"
                  for a b c d e])

lemma sanitize_step_dst:
  assumes "sanitize_step str maxLen src dst = Some (str1, src1, dst1)"
  shows "dst < dst1 \<and> dst1 < maxLen"
proof -
  consider
    (a) "sanitize_step str maxLen src dst =
           (if dst \<ge> maxLen - 1 then None else Some (copy1 (str, src, dst)))"
  | (b) k where "sanitize_step str maxLen src dst = copy_seq k str maxLen src dst" "0 < k"
  | (c) "sanitize_step str maxLen src dst = put_replacement str maxLen src dst"
    using sanitize_step_forms [of str maxLen src dst] by fastforce
  then show ?thesis
  proof cases
    case a
    with assms show ?thesis by (auto simp: copy1_def split: if_splits)
  next
    case b
    with assms have "dst + k < maxLen" "(copy1 ^^ k) (str, src, dst) = (str1, src1, dst1)"
      by (auto simp: copy_seq_def split: if_splits)
    with copy1_dst b(2) show ?thesis by fastforce
  next
    case c
    with assms show ?thesis by (auto simp: put_replacement_def split: if_splits)
  qed
qed

function sanitize_loop :: "byte list \<Rightarrow> nat \<Rightarrow> nat \<Rightarrow> nat \<Rightarrow> byte list \<times> nat" where
  "sanitize_loop str maxLen src dst =
     (if rd str src = 0 then (str, dst)
      else case sanitize_step str maxLen src dst of
             None \<Rightarrow> (str, dst)
           | Some (str1, src1, dst1) \<Rightarrow> sanitize_loop str1 maxLen src1 dst1)"
  by pat_completeness auto
termination
proof (relation "measure (\<lambda>(str, maxLen, src, dst). maxLen - dst)")
  show "wf (measure (\<lambda>(str, maxLen, src, dst). maxLen - dst))" by simp
next
  fix str :: "byte list" and maxLen src dst x2 str1 y src1 dst1
  assume "sanitize_step str maxLen src dst = Some x2" "(str1, y) = x2" "(src1, dst1) = y"
  then have "sanitize_step str maxLen src dst = Some (str1, src1, dst1)" by simp
  from sanitize_step_dst [OF this] have "maxLen - dst1 < maxLen - dst" by linarith
  then show "((str1, maxLen, src1, dst1), str, maxLen, src, dst)
          \<in> measure (\<lambda>(str, maxLen, src, dst). maxLen - dst)"
    by simp
qed

declare sanitize_loop.simps [simp del]

definition sanitizeUtf8 :: "byte list \<Rightarrow> nat \<Rightarrow> byte list \<times> nat" where
  "sanitizeUtf8 str maxLen =
     (if maxLen = 0 then (str, 0)
      else case sanitize_loop str maxLen 0 0 of
             (str1, dst) \<Rightarrow>
               if dst < maxLen then (str1[dst := 0], dst)
               else (str1[maxLen - 1 := 0], maxLen - 1))"

section \<open>The append scenario (C6)\<close>

text \<open>C6, as the spec states it: on a buffer of capacity 16, \<^verbatim>\<open>append("Hello")\<close> then
  \<^verbatim>\<open>append(", World!")\<close> leaves \<^verbatim>\<open>"Hello, Worl"\<close>, 11 bytes.  The code does not do
  that: 5 + 8 = 13 bytes fit into the 15 usable bytes, so nothing is cut.\<close>

theorem append_scenario_not_truncated:
  "\<not> (case append_str (emptyString 16) 16 0 (bytes ''Hello'') 5 of
        (b1, n1) \<Rightarrow>
          (case append_str b1 16 n1 (bytes '', World!'') 8 of
             (b2, n2) \<Rightarrow> cstr b2 0 = bytes ''Hello, Worl'' \<and> n2 = 11))"
  by code_simp

text \<open>C6, amended: on any array of 16 bytes taken as empty, the two appends leave
  \<^verbatim>\<open>"Hello, World!"\<close>, 13 bytes followed by the terminator, the bytes behind it are
  untouched, and the utilization over the 15 usable bytes is (13/15)*100.\<close>

theorem append_scenario:
  assumes "length buf = 16"
  shows "case append_str buf 16 0 (bytes ''Hello'') 5 of
           (b1, n1) \<Rightarrow>
             (case append_str b1 16 n1 (bytes '', World!'') 8 of
                (b2, n2) \<Rightarrow>
                  b2 = bytes ''Hello, World!'' @ 0 # drop 14 buf \<and> n2 = 13
                  \<and> cstr b2 0 = bytes ''Hello, World!''
                  \<and> utilization n2 16 = 13 / 15 * 100)"
proof -
  have "drop 13 buf = buf ! 13 # drop 14 buf"
    using assms Cons_nth_drop_Suc [of 13 buf] by simp
  then show ?thesis
    using assms
    by (simp add: append_str_def memcpy_def size_sub_def bytes_def utilization_def
          cstr_def list_update_append)
qed

theorem append_scenario_witness:
  "length (emptyString 16) = 16 \<and>
   (case append_str (emptyString 16) 16 0 (bytes ''Hello'') 5 of
      (b1, n1) \<Rightarrow>
        (case append_str b1 16 n1 (bytes '', World!'') 8 of
           (b2, n2) \<Rightarrow>
             b2 = bytes ''Hello, World!'' @ 0 # drop 14 (emptyString 16) \<and> n2 = 13
             \<and> cstr b2 0 = bytes ''Hello, World!''
             \<and> utilization n2 16 = 13 / 15 * 100))"
proof -
  have h: "length (emptyString 16) = 16" by (simp add: emptyString_def)
  from h append_scenario [OF h] show ?thesis by (rule conjI)
qed

section \<open>Splitting (C8)\<close>

text \<open>C8: both forms of \<^verbatim>\<open>split\<close> fold the text that is left into the last token.  The
  destructive form does; the form that fills \<^verbatim>\<open>Token\<close> views leaves the loop at the
  delimiter it does not split at and measures the last token up to that delimiter, so
  the text behind it is lost.  On \<^verbatim>\<open>"a:b:c"\<close> with two slots the destructive form yields
  \<^verbatim>\<open>"a"\<close> and \<^verbatim>\<open>"b:c"\<close>, the other form \<^verbatim>\<open>"a"\<close> and \<^verbatim>\<open>"b"\<close>.\<close>

theorem split_token_loses_remainder:
  "(case split_token (bytes ''a:b:c'' @ [0]) 0x3A (replicate 2 \<lparr>ptr = 0, len = 0\<rparr>) 2 of
      (toks, n) \<Rightarrow>
        n = 2 \<and> map (token_text (bytes ''a:b:c'' @ [0])) toks = [bytes ''a'', bytes ''b''])
   \<and> (case split_destructive (bytes ''a:b:c'' @ [0]) 0x3A (replicate 2 0) 2 of
        (str1, toks, n) \<Rightarrow>
          n = 2 \<and> map (piece str1) toks = [bytes ''a'', bytes ''b:c''])"
  by code_simp

text \<open>The scenario of the spec, where the slots suffice, comes out as stated in both
  forms.\<close>

lemma split_scenario:
  "(case split_token (bytes ''SSID:MyHome:WPA2'' @ [0]) 0x3A
           (replicate 3 \<lparr>ptr = 0, len = 0\<rparr>) 3 of
      (toks, n) \<Rightarrow>
        n = 3 \<and> map (token_text (bytes ''SSID:MyHome:WPA2'' @ [0])) toks
                 = [bytes ''SSID'', bytes ''MyHome'', bytes ''WPA2''])
   \<and> (case split_destructive (bytes ''SSID:MyHome:WPA2'' @ [0]) 0x3A (replicate 3 0) 3 of
        (str1, toks, n) \<Rightarrow>
          n = 3 \<and> map (piece str1) toks = [bytes ''SSID'', bytes ''MyHome'', bytes ''WPA2''])"
  by code_simp

section \<open>Clipping inside a character (C2)\<close>

text \<open>C2: no operation splits a multi-byte character.  \<^verbatim>\<open>append\<close> clips by bytes: the
  array holds \<^verbatim>\<open>"abc"\<close> in 6 bytes, the argument is one character of 3 bytes
  (U+AC00); both are valid UTF-8.  Two bytes fit, two bytes are copied, and the result
  ends inside the character.\<close>

theorem append_splits_character:
  "validateUtf8 (bytes ''abc'' @ [0, 0, 0]) \<and> validateUtf8 [0xEA, 0xB0, 0x80, 0]
   \<and> append_str (bytes ''abc'' @ [0, 0, 0]) 6 3 [0xEA, 0xB0, 0x80] 3
       = (bytes ''abc'' @ [0xEA, 0xB0, 0], 5)
   \<and> \<not> validateUtf8 (bytes ''abc'' @ [0xEA, 0xB0, 0])"
  by code_simp

section \<open>The terminator after a number that does not fit (C3)\<close>

text \<open>C3: after every mutating operation the byte at the new length is the terminator.
  \<^verbatim>\<open>appendInt\<close> writes the sign and counts it before it knows that the digits fit;
  when they do not, the unsigned primitive returns without writing, and the byte at the
  new length is whatever the array held.  The array holds \<^verbatim>\<open>"abc"\<close>, then the terminator,
  then a stale \<^verbatim>\<open>'Z'\<close>; -12345 does not fit into capacity 6.\<close>

theorem appendInt_sign_without_terminator:
  "appendInt (bytes ''abc'' @ [0, 0x5A, 0]) 6 3 (- 12345) 0 0x20
     = Some (bytes ''abc-'' @ [0x5A, 0], 4)
   \<and> rd (bytes ''abc-'' @ [0x5A, 0]) 4 \<noteq> 0"
  by code_simp

section \<open>Numbers are appended whole or not at all (C10)\<close>

text \<open>C10: when the digits of a number with its padding do not fit
  (\<^verbatim>\<open>curLen + totalLen >= maxLen\<close>), the decimal and the hexadecimal primitive leave the
  array and the length as they are; otherwise the length grows by exactly
  \<^verbatim>\<open>totalLen\<close>.  A number is never cut to a part of its digits.\<close>

theorem number_append_all_or_nothing:
  "(curLen + nat (if digitsCount_dec uval > width then digitsCount_dec uval else width)
       \<ge> maxLen \<longrightarrow>
      appendUIntInternal buffer maxLen curLen uval width padChar = (buffer, curLen))
   \<and> (curLen + nat (if digitsCount_hex uval > width then digitsCount_hex uval else width)
       \<ge> maxLen \<longrightarrow>
      appendHexInternal buffer maxLen curLen uval width padChar uppercase = (buffer, curLen))
   \<and> (curLen + nat (if digitsCount_dec uval > width then digitsCount_dec uval else width)
       < maxLen \<longrightarrow>
      snd (appendUIntInternal buffer maxLen curLen uval width padChar)
        = curLen + nat (if digitsCount_dec uval > width then digitsCount_dec uval else width))
   \<and> (curLen + nat (if digitsCount_hex uval > width then digitsCount_hex uval else width)
       < maxLen \<longrightarrow>
      snd (appendHexInternal buffer maxLen curLen uval width padChar uppercase)
        = curLen + nat (if digitsCount_hex uval > width then digitsCount_hex uval else width))"
  by (simp add: appendUIntInternal_def appendHexInternal_def Let_def split: prod.splits)

theorem number_append_all_or_nothing_witness:
  "2 + nat (if digitsCount_dec 12345 > 0 then digitsCount_dec 12345 else 0) \<ge> 5
   \<and> appendUIntInternal (bytes ''ab'' @ [0, 0, 0]) 5 2 12345 0 0x20
       = (bytes ''ab'' @ [0, 0, 0], 2)
   \<and> 2 + nat (if digitsCount_hex 0xBEEF > 0 then digitsCount_hex 0xBEEF else 0) \<ge> 5
   \<and> appendHexInternal (bytes ''ab'' @ [0, 0, 0]) 5 2 0xBEEF 0 0x20 True
       = (bytes ''ab'' @ [0, 0, 0], 2)
   \<and> 2 + nat (if digitsCount_dec 7 > 2 then digitsCount_dec 7 else 2) < 5
   \<and> snd (appendUIntInternal (bytes ''ab'' @ [0, 0, 0]) 5 2 7 2 0x30) = 4
   \<and> 2 + nat (if digitsCount_hex 0xA > 2 then digitsCount_hex 0xA else 2) < 5
   \<and> snd (appendHexInternal (bytes ''ab'' @ [0, 0, 0]) 5 2 0xA 2 0x30 False) = 4"
proof -
  have d: "digitsCount_dec 12345 = 5" "digitsCount_dec 7 = 1"
    by (simp_all add: digitsCount_dec_def)
  have x: "digitsCount_hex 0xBEEF = 4" "digitsCount_hex 0xA = 1"
    by (simp_all add: digitsCount_hex_def hex_count.simps drop_bit_eq_div)
  have h1: "2 + nat (if digitsCount_dec 12345 > 0 then digitsCount_dec 12345 else 0) \<ge> 5"
    and h2: "2 + nat (if digitsCount_hex 0xBEEF > 0 then digitsCount_hex 0xBEEF else 0) \<ge> 5"
    and h3: "2 + nat (if digitsCount_dec 7 > 2 then digitsCount_dec 7 else 2) < 5"
    and h4: "2 + nat (if digitsCount_hex 0xA > 2 then digitsCount_hex 0xA else 2) < 5"
    by (simp_all add: d x)
  note t = number_append_all_or_nothing
  from h1 t [where curLen = 2 and uval = 12345 and width = 0 and maxLen = 5
      and buffer = "bytes ''ab'' @ [0, 0, 0]" and padChar = "0x20"]
  have c1: "appendUIntInternal (bytes ''ab'' @ [0, 0, 0]) 5 2 12345 0 0x20
              = (bytes ''ab'' @ [0, 0, 0], 2)" by blast
  from h2 t [where curLen = 2 and uval = "0xBEEF" and width = 0 and maxLen = 5
      and buffer = "bytes ''ab'' @ [0, 0, 0]" and padChar = "0x20" and uppercase = True]
  have c2: "appendHexInternal (bytes ''ab'' @ [0, 0, 0]) 5 2 0xBEEF 0 0x20 True
              = (bytes ''ab'' @ [0, 0, 0], 2)" by blast
  from h3 t [where curLen = 2 and uval = 7 and width = 2 and maxLen = 5
      and buffer = "bytes ''ab'' @ [0, 0, 0]" and padChar = "0x30"]
  have c3: "snd (appendUIntInternal (bytes ''ab'' @ [0, 0, 0]) 5 2 7 2 0x30) = 4"
    by (simp add: d)
  from h4 t [where curLen = 2 and uval = "0xA" and width = 2 and maxLen = 5
      and buffer = "bytes ''ab'' @ [0, 0, 0]" and padChar = "0x30" and uppercase = False]
  have c4: "snd (appendHexInternal (bytes ''ab'' @ [0, 0, 0]) 5 2 0xA 2 0x30 False) = 4"
    by (simp add: x)
  from h1 c1 h2 c2 h3 c3 h4 c4 show ?thesis by blast
qed

section \<open>Case-insensitive search: the KMP path and the naive path (C5)\<close>

subsection \<open>The model of \<^verbatim>\<open>strcasestr\<close>\<close>

text \<open>Modelled from the spec: \<^verbatim>\<open>toLower\<close> is declared in \<^verbatim>\<open>cmsStringUtil.h\<close>, which is
  not among the sources.  The spec has case folding per byte and in the ASCII range only.
  No proof below unfolds it: the search results hold for any folding of bytes.\<close>

definition toLower :: "byte \<Rightarrow> byte" where
  "toLower c = (if 0x41 \<le> c \<and> c \<le> 0x5A then c + 0x20 else c)"

text \<open>\<^verbatim>\<open>strlen\<close>.\<close>

definition strlen :: "byte list \<Rightarrow> nat" where
  "strlen s = length (cstr s 0)"

text \<open>\<^verbatim>\<open>computeLPS\<close>.  The table \<^verbatim>\<open>int16_t lps[64]\<close> is a list of numbers; its entries
  never exceed the pattern length, at most 64, so the cast to \<^verbatim>\<open>int16_t\<close> keeps them.
  Whether the loops of the table and of the scan end depends on what the table holds, so
  both are partial functions: \<open>None\<close> stands for a loop that does not return.\<close>

partial_function (option) computeLPS_loop :: "byte list \<Rightarrow> nat \<Rightarrow> nat list \<Rightarrow> nat \<Rightarrow> nat
    \<Rightarrow> nat list option" where
  "computeLPS_loop pat m lps plen i =
     (if i < m
      then (if toLower (rd pat i) = toLower (rd pat plen)
            then computeLPS_loop pat m (lps[i := plen + 1]) (plen + 1) (i + 1)
            else if plen \<noteq> 0
            then computeLPS_loop pat m lps (lps ! (plen - 1)) i
            else computeLPS_loop pat m (lps[i := 0]) plen (i + 1))
      else Some lps)"

declare computeLPS_loop.simps [code]

definition computeLPS :: "byte list \<Rightarrow> nat \<Rightarrow> nat list \<Rightarrow> nat list option" where
  "computeLPS pat m lps = computeLPS_loop pat m (lps[0 := 0]) 0 1"

text \<open>The scan of the short-pattern path of \<^verbatim>\<open>strcasestr\<close>.  A pointer result is the
  offset from \<^verbatim>\<open>haystack\<close>, \<open>None\<close> is \<^verbatim>\<open>nullptr\<close>.\<close>

partial_function (option) kmp_loop :: "byte list \<Rightarrow> byte list \<Rightarrow> nat \<Rightarrow> nat list \<Rightarrow> nat \<Rightarrow> nat
    \<Rightarrow> nat option option" where
  "kmp_loop haystack needle m lps i j =
     (if rd haystack i \<noteq> 0
      then (let i1 = (if toLower (rd haystack i) = toLower (rd needle j) then i + 1 else i);
                j1 = (if toLower (rd haystack i) = toLower (rd needle j) then j + 1 else j)
            in if j1 = m then Some (Some (i1 - m))
               else if rd haystack i1 \<noteq> 0
                       \<and> toLower (rd haystack i1) \<noteq> toLower (rd needle j1)
               then (if j1 \<noteq> 0
                     then kmp_loop haystack needle m lps i1 (lps ! (j1 - 1))
                     else kmp_loop haystack needle m lps (i1 + 1) j1)
               else kmp_loop haystack needle m lps i1 j1)
      else Some None)"

declare kmp_loop.simps [code]

text \<open>The fallback for long patterns: the inner \<^verbatim>\<open>while\<close> and the outer \<^verbatim>\<open>for\<close>.\<close>

function naive_inner :: "byte list \<Rightarrow> byte list \<Rightarrow> nat \<Rightarrow> nat \<Rightarrow> nat \<times> nat" where
  "naive_inner haystack needle h n =
     (if rd haystack h \<noteq> 0 \<and> rd needle n \<noteq> 0
         \<and> toLower (rd haystack h) = toLower (rd needle n)
      then naive_inner haystack needle (h + 1) (n + 1)
      else (h, n))"
  by pat_completeness auto
termination
  by (relation "measure (\<lambda>(haystack, needle, h, n). length haystack - h)")
     (auto simp: rd_def split: if_splits)
declare naive_inner.simps [simp del]

function naive_loop :: "byte list \<Rightarrow> byte list \<Rightarrow> byte \<Rightarrow> nat \<Rightarrow> nat option" where
  "naive_loop haystack needle first p =
     (if rd haystack p \<noteq> 0
      then (if toLower (rd haystack p) = first
            then (case naive_inner haystack needle (p + 1) 1 of
                    (h, n) \<Rightarrow>
                      if rd needle n = 0 then Some p
                      else naive_loop haystack needle first (p + 1))
            else naive_loop haystack needle first (p + 1))
      else None)"
  by pat_completeness auto
termination
  by (relation "measure (\<lambda>(haystack, needle, first, p). length haystack - p)")
     (auto simp: rd_def split: if_splits)
declare naive_loop.simps [simp del]

text \<open>The two paths, and \<^verbatim>\<open>strcasestr\<close> choosing between them.  The table is not
  initialised in the source; \<open>strcasestr_kmp\<close> takes its initial content as a
  parameter and \<open>strcasestr\<close> passes zeros.\<close>

definition strcasestr_kmp :: "nat list \<Rightarrow> byte list \<Rightarrow> byte list \<Rightarrow> nat option option" where
  "strcasestr_kmp lps0 haystack needle =
     (let m = strlen needle
      in case computeLPS needle m lps0 of
           None \<Rightarrow> None
         | Some lps \<Rightarrow> kmp_loop haystack needle m lps 0 0)"

definition strcasestr_naive :: "byte list \<Rightarrow> byte list \<Rightarrow> nat option" where
  "strcasestr_naive haystack needle = naive_loop haystack needle (toLower (rd needle 0)) 0"

definition strcasestr :: "byte list \<Rightarrow> byte list \<Rightarrow> nat option option" where
  "strcasestr haystack needle =
     (if rd needle 0 = 0 then Some (Some 0)
      else if strlen needle \<le> 64 then strcasestr_kmp (replicate 64 0) haystack needle
      else Some (strcasestr_naive haystack needle))"

subsection \<open>Strings held by arrays\<close>

lemma strlen_le: "strlen a \<le> length a"
  by (simp add: strlen_def cstr_def length_takeWhile_le)

lemma rd_strlen: "rd a (strlen a) = 0"
proof (cases "strlen a < length a")
  case True
  then have "\<not> (a ! strlen a \<noteq> 0)"
    unfolding strlen_def cstr_def drop_0 by (rule nth_length_takeWhile)
  with True show ?thesis by (simp add: rd_def)
next
  case False
  then show ?thesis by (simp add: rd_def)
qed

lemma rd_cstr: "i < strlen a \<Longrightarrow> rd a i = cstr a 0 ! i"
  using strlen_le [of a] by (simp add: rd_def strlen_def cstr_def takeWhile_nth)

lemma rd_nonzero: "i < strlen a \<Longrightarrow> rd a i \<noteq> 0"
proof -
  assume i: "i < strlen a"
  then have "cstr a 0 ! i \<in> set (takeWhile (\<lambda>b. b \<noteq> 0) a)"
    by (simp add: strlen_def cstr_def)
  then have "cstr a 0 ! i \<noteq> 0" by (rule set_takeWhileD [THEN conjunct2])
  with i show ?thesis by (simp add: rd_cstr)
qed

definition fold_str :: "byte list \<Rightarrow> byte list" where
  "fold_str a = map toLower (cstr a 0)"

lemma length_fold_str: "length (fold_str a) = strlen a"
  by (simp add: fold_str_def strlen_def)

lemma fold_str_nth: "i < strlen a \<Longrightarrow> fold_str a ! i = toLower (rd a i)"
proof -
  assume i: "i < strlen a"
  then have "i < length (cstr a 0)" by (simp add: strlen_def)
  then have "fold_str a ! i = toLower (cstr a 0 ! i)" unfolding fold_str_def by (rule nth_map)
  with i show ?thesis by (simp only: rd_cstr)
qed

subsection \<open>Matches and borders\<close>

definition match_at :: "'a list \<Rightarrow> 'a list \<Rightarrow> nat \<Rightarrow> bool" where
  "match_at T P s \<longleftrightarrow> s + length P \<le> length T \<and> (\<forall>k < length P. T ! (s + k) = P ! k)"

definition is_first :: "'a list \<Rightarrow> 'a list \<Rightarrow> nat option \<Rightarrow> bool" where
  "is_first T P r \<longleftrightarrow>
     (case r of
        None \<Rightarrow> \<forall>s. \<not> match_at T P s
      | Some s \<Rightarrow> match_at T P s \<and> (\<forall>s' < s. \<not> match_at T P s'))"

lemma is_first_unique:
  assumes "is_first T P r" "is_first T P q"
  shows "r = q"
proof (cases r)
  case None
  with assms show ?thesis by (cases q) (auto simp: is_first_def)
next
  case rs: (Some s)
  show ?thesis
  proof (cases q)
    case None
    with rs assms show ?thesis by (auto simp: is_first_def)
  next
    case (Some t)
    from assms rs Some
    have "match_at T P s" "match_at T P t" "\<forall>u < s. \<not> match_at T P u" "\<forall>u < t. \<not> match_at T P u"
      by (auto simp: is_first_def)
    then have "\<not> t < s" "\<not> s < t" by blast+
    then have "s = t" by linarith
    with rs Some show ?thesis by simp
  qed
qed

definition is_border :: "'a list \<Rightarrow> nat \<Rightarrow> nat \<Rightarrow> bool" where
  "is_border P j b \<longleftrightarrow> b < j \<and> (\<forall>k < b. P ! k = P ! (j - b + k))"

definition lps_ok :: "'a list \<Rightarrow> nat \<Rightarrow> nat \<Rightarrow> bool" where
  "lps_ok P q v \<longleftrightarrow> is_border P (q + 1) v \<and> (\<forall>b. is_border P (q + 1) b \<longrightarrow> b \<le> v)"

lemma border_zero: "0 < j \<Longrightarrow> is_border P j 0"
  by (simp add: is_border_def)

lemma border_pred: "is_border P (j + 1) b \<Longrightarrow> 0 < b \<Longrightarrow> is_border P j (b - 1)"
  unfolding is_border_def
proof (intro conjI allI impI)
  assume a: "b < j + 1 \<and> (\<forall>k<b. P ! k = P ! (j + 1 - b + k))" and b: "0 < b"
  then show "b - 1 < j" by linarith
  fix k assume "k < b - 1"
  then have "k < b" by linarith
  with a have 1: "P ! k = P ! (j + 1 - b + k)" by blast
  have 2: "j + 1 - b + k = j - (b - 1) + k" using a b by linarith
  from 1 show "P ! k = P ! (j - (b - 1) + k)" unfolding 2 .
qed

lemma border_succ: "is_border P j b \<Longrightarrow> P ! b = P ! j \<Longrightarrow> is_border P (j + 1) (b + 1)"
  unfolding is_border_def
proof (intro conjI allI impI)
  assume a: "b < j \<and> (\<forall>k<b. P ! k = P ! (j - b + k))" and e: "P ! b = P ! j"
  then show "b + 1 < j + 1" by simp
  fix k assume k: "k < b + 1"
  show "P ! k = P ! (j + 1 - (b + 1) + k)"
  proof (cases "k = b")
    case True
    from a have "j + 1 - (b + 1) + b = j" by linarith
    with True e show ?thesis by simp
  next
    case False
    with k have "k < b" by linarith
    with a have "P ! k = P ! (j - b + k)" by blast
    moreover have "j + 1 - (b + 1) + k = j - b + k" by linarith
    ultimately show ?thesis by simp
  qed
qed

lemma border_last: "is_border P (j + 1) (b + 1) \<Longrightarrow> P ! b = P ! j"
  unfolding is_border_def
proof -
  assume a: "b + 1 < j + 1 \<and> (\<forall>k<b + 1. P ! k = P ! (j + 1 - (b + 1) + k))"
  have "b < b + 1" by simp
  with a have "P ! b = P ! (j + 1 - (b + 1) + b)" by blast
  moreover have "j + 1 - (b + 1) + b = j" using a by linarith
  ultimately show ?thesis by (simp only:)
qed

lemma border_trans: "is_border P i a \<Longrightarrow> is_border P a b \<Longrightarrow> is_border P i b"
  unfolding is_border_def
proof (intro conjI allI impI)
  assume x: "a < i \<and> (\<forall>k<a. P ! k = P ! (i - a + k))"
    and y: "b < a \<and> (\<forall>k<b. P ! k = P ! (a - b + k))"
  then show "b < i" by linarith
  fix k assume k: "k < b"
  with y have 1: "P ! k = P ! (a - b + k)" by blast
  from y k have "a - b + k < a" by linarith
  with x have 2: "P ! (a - b + k) = P ! (i - a + (a - b + k))" by blast
  from x y k have 3: "i - a + (a - b + k) = i - b + k" by linarith
  from 1 2 show "P ! k = P ! (i - b + k)" unfolding 3 by (rule trans)
qed

lemma border_of_border: "is_border P i a \<Longrightarrow> is_border P i b \<Longrightarrow> b < a \<Longrightarrow> is_border P a b"
  unfolding is_border_def
proof (intro conjI allI impI)
  assume x: "a < i \<and> (\<forall>k<a. P ! k = P ! (i - a + k))"
    and y: "b < i \<and> (\<forall>k<b. P ! k = P ! (i - b + k))" and ba: "b < a"
  then show "b < a" by simp
  fix k assume k: "k < b"
  from ba k have "a - b + k < a" by linarith
  with x have 1: "P ! (a - b + k) = P ! (i - a + (a - b + k))" by blast
  from x ba k have 2: "i - a + (a - b + k) = i - b + k" by linarith
  from y k have 3: "P ! k = P ! (i - b + k)" by blast
  from 1 3 show "P ! k = P ! (a - b + k)" unfolding 2 by simp
qed

subsection \<open>The failure table\<close>

definition lps_inv :: "'a list \<Rightarrow> nat list \<Rightarrow> nat \<Rightarrow> nat \<Rightarrow> bool" where
  "lps_inv P lps plen i \<longleftrightarrow>
     1 \<le> i \<and> i \<le> length P \<and> length P \<le> length lps \<and> plen < i
     \<and> (\<forall>q < i. lps_ok P q (lps ! q)) \<and> is_border P i plen
     \<and> (i < length P \<longrightarrow> (\<forall>b. is_border P (i + 1) b \<longrightarrow> b \<le> plen + 1))"

lemma lps_next_bound:
  assumes "lps_ok P i v"
  shows "\<forall>b. is_border P (i + 1 + 1) b \<longrightarrow> b \<le> v + 1"
proof (intro allI impI)
  fix b assume b: "is_border P (i + 1 + 1) b"
  show "b \<le> v + 1"
  proof (cases "b = 0")
    case True
    then show ?thesis by simp
  next
    case False
    then have "0 < b" by simp
    with b have "is_border P (i + 1) (b - 1)" by (rule border_pred)
    with assms have "b - 1 \<le> v" unfolding lps_ok_def by blast
    then show ?thesis by linarith
  qed
qed

lemma lps_inv_init:
  assumes "1 \<le> length P" "length P \<le> length lps"
  shows "lps_inv P (lps[0 := 0]) 0 1"
proof -
  have b: "is_border P 1 0" by (simp add: border_zero)
  have "\<forall>b. is_border P (0 + 1) b \<longrightarrow> b \<le> 0" by (simp add: is_border_def)
  with b have ok: "lps_ok P 0 0" by (simp add: lps_ok_def)
  from assms have "0 < length lps" by linarith
  then have "lps[0 := 0] ! 0 = 0" by simp
  with ok have tab: "\<forall>q < 1. lps_ok P q (lps[0 := 0] ! q)" by simp
  from lps_next_bound [OF ok] have "\<forall>b. is_border P (1 + 1) b \<longrightarrow> b \<le> 0 + 1" by simp
  with assms b tab show ?thesis unfolding lps_inv_def by simp
qed

lemma lps_inv_match:
  assumes inv: "lps_inv P lps plen i" and i: "i < length P" and eq: "P ! i = P ! plen"
  shows "lps_inv P (lps[i := plen + 1]) (plen + 1) (i + 1)"
proof -
  from inv have bd: "is_border P i plen" and len: "length P \<le> length lps"
    and tab: "\<forall>q < i. lps_ok P q (lps ! q)" and i1: "1 \<le> i" and pl: "plen < i"
    by (simp_all add: lps_inv_def)
  from inv i have mx: "\<forall>b. is_border P (i + 1) b \<longrightarrow> b \<le> plen + 1"
    by (simp add: lps_inv_def)
  from bd eq [symmetric] have b1: "is_border P (i + 1) (plen + 1)" by (rule border_succ)
  with mx have ok: "lps_ok P i (plen + 1)" by (simp add: lps_ok_def)
  have tab': "\<forall>q < i + 1. lps_ok P q (lps[i := plen + 1] ! q)"
  proof (intro allI impI)
    fix q assume q: "q < i + 1"
    show "lps_ok P q (lps[i := plen + 1] ! q)"
    proof (cases "q = i")
      case True
      with i len ok show ?thesis by simp
    next
      case False
      with q tab show ?thesis by simp
    qed
  qed
  from lps_next_bound [OF ok]
  have nx: "\<forall>b. is_border P (i + 1 + 1) b \<longrightarrow> b \<le> plen + 1 + 1" .
  from i len i1 pl tab' b1 nx show ?thesis unfolding lps_inv_def by simp
qed

lemma lps_inv_fallback:
  assumes inv: "lps_inv P lps plen i" and i: "i < length P" and ne: "P ! i \<noteq> P ! plen"
    and pz: "plen \<noteq> 0"
  shows "lps_inv P lps (lps ! (plen - 1)) i \<and> lps ! (plen - 1) < plen"
proof -
  from inv have bd: "is_border P i plen" and len: "length P \<le> length lps"
    and tab: "\<forall>q < i. lps_ok P q (lps ! q)" and i1: "1 \<le> i" and pl: "plen < i"
    by (simp_all add: lps_inv_def)
  from inv i have mx: "\<forall>b. is_border P (i + 1) b \<longrightarrow> b \<le> plen + 1"
    by (simp add: lps_inv_def)
  define v where "v = lps ! (plen - 1)"
  from pz pl have "plen - 1 < i" by linarith
  with tab have "lps_ok P (plen - 1) v" unfolding v_def by blast
  moreover from pz have "plen - 1 + 1 = plen" by simp
  ultimately have vb: "is_border P plen v" and vmax: "\<forall>b. is_border P plen b \<longrightarrow> b \<le> v"
    by (simp_all add: lps_ok_def)
  from vb have vl: "v < plen" by (simp add: is_border_def)
  from bd vb have b': "is_border P i v" by (rule border_trans)
  have mx': "\<forall>b. is_border P (i + 1) b \<longrightarrow> b \<le> v + 1"
  proof (intro allI impI)
    fix b assume b: "is_border P (i + 1) b"
    with mx have le: "b \<le> plen + 1" by blast
    have "b \<noteq> plen + 1"
    proof
      assume "b = plen + 1"
      with b have "P ! plen = P ! i" by (simp add: border_last)
      with ne show False by simp
    qed
    with le have le': "b \<le> plen" by linarith
    show "b \<le> v + 1"
    proof (cases "b = 0")
      case True
      then show ?thesis by simp
    next
      case False
      then have "0 < b" by simp
      with b have bi: "is_border P i (b - 1)" by (rule border_pred)
      from \<open>0 < b\<close> le' have "b - 1 < plen" by linarith
      with bd bi have "is_border P plen (b - 1)" by (rule border_of_border)
      with vmax have "b - 1 \<le> v" by blast
      then show ?thesis by linarith
    qed
  qed
  from vl pl have "v < i" by linarith
  with i1 i len tab b' mx' have "lps_inv P lps v i" unfolding lps_inv_def by simp
  with vl show ?thesis unfolding v_def by simp
qed

lemma lps_inv_zero:
  assumes inv: "lps_inv P lps 0 i" and i: "i < length P" and ne: "P ! i \<noteq> P ! 0"
  shows "lps_inv P (lps[i := 0]) 0 (i + 1)"
proof -
  from inv have len: "length P \<le> length lps"
    and tab: "\<forall>q < i. lps_ok P q (lps ! q)" and i1: "1 \<le> i"
    by (simp_all add: lps_inv_def)
  from inv i have mx: "\<forall>b. is_border P (i + 1) b \<longrightarrow> b \<le> 0 + 1"
    by (simp add: lps_inv_def)
  have b0: "is_border P (i + 1) 0" by (simp add: border_zero)
  have mx0: "\<forall>b. is_border P (i + 1) b \<longrightarrow> b \<le> 0"
  proof (intro allI impI)
    fix b assume b: "is_border P (i + 1) b"
    with mx have le: "b \<le> 0 + 1" by blast
    have "b \<noteq> 0 + 1"
    proof
      assume "b = 0 + 1"
      with b have "P ! 0 = P ! i" by (simp only: border_last)
      with ne show False by simp
    qed
    with le show "b \<le> 0" by linarith
  qed
  with b0 have ok: "lps_ok P i 0" by (simp add: lps_ok_def)
  have tab': "\<forall>q < i + 1. lps_ok P q (lps[i := 0] ! q)"
  proof (intro allI impI)
    fix q assume q: "q < i + 1"
    show "lps_ok P q (lps[i := 0] ! q)"
    proof (cases "q = i")
      case True
      with i len ok show ?thesis by simp
    next
      case False
      with q tab show ?thesis by simp
    qed
  qed
  from lps_next_bound [OF ok]
  have nx: "\<forall>b. is_border P (i + 1 + 1) b \<longrightarrow> b \<le> 0 + 1" .
  from i len i1 tab' b0 nx show ?thesis unfolding lps_inv_def by simp
qed

lemma computeLPS_loop_correct:
  assumes P: "P = fold_str pat" and m: "m = strlen pat"
  shows "lps_inv P lps plen i \<Longrightarrow>
         \<exists>lps'. computeLPS_loop pat m lps plen i = Some lps' \<and> length lps' = length lps
                \<and> (\<forall>q < m. lps_ok P q (lps' ! q))"
proof (induction "2 * (m - i) + plen" arbitrary: lps plen i rule: less_induct)
  case less
  note inv = less.prems
  from P m have mP: "length P = m" by (simp add: length_fold_str)
  from inv mP have im: "i \<le> m" and pl: "plen < i"
    and tab: "\<forall>q < i. lps_ok P q (lps ! q)"
    by (simp_all add: lps_inv_def)
  show ?case
  proof (cases "i < m")
    case False
    with im have "i = m" by simp
    with tab have "\<forall>q < m. lps_ok P q (lps ! q)" by simp
    moreover from False have "computeLPS_loop pat m lps plen i = Some lps"
      by (subst computeLPS_loop.simps) simp
    ultimately show ?thesis by simp
  next
    case True
    with pl have plm: "plen < m" by linarith
    from True m have Pi: "P ! i = toLower (rd pat i)" unfolding P by (simp add: fold_str_nth)
    from plm m have Pl: "P ! plen = toLower (rd pat plen)" unfolding P by (simp add: fold_str_nth)
    from True mP have iP: "i < length P" by simp
    show ?thesis
    proof (cases "P ! i = P ! plen")
      case eq: True
      from inv iP eq have inv': "lps_inv P (lps[i := plen + 1]) (plen + 1) (i + 1)"
        by (rule lps_inv_match)
      from True have "2 * (m - (i + 1)) + (plen + 1) < 2 * (m - i) + plen" by linarith
      from less.hyps [OF this inv']
      obtain lps' where r: "computeLPS_loop pat m (lps[i := plen + 1]) (plen + 1) (i + 1) = Some lps'"
        "length lps' = length lps" "\<forall>q < m. lps_ok P q (lps' ! q)"
        by auto
      from True eq Pi Pl
      have "computeLPS_loop pat m lps plen i
              = computeLPS_loop pat m (lps[i := plen + 1]) (plen + 1) (i + 1)"
        by (subst computeLPS_loop.simps) simp
      with r show ?thesis by simp
    next
      case ne: False
      show ?thesis
      proof (cases "plen = 0")
        case pz: False
        from lps_inv_fallback [OF inv iP ne pz]
        have inv': "lps_inv P lps (lps ! (plen - 1)) i" and dec: "lps ! (plen - 1) < plen"
          by simp_all
        from dec have "2 * (m - i) + lps ! (plen - 1) < 2 * (m - i) + plen" by linarith
        from less.hyps [OF this inv']
        obtain lps' where r: "computeLPS_loop pat m lps (lps ! (plen - 1)) i = Some lps'"
          "length lps' = length lps" "\<forall>q < m. lps_ok P q (lps' ! q)"
          by auto
        from True ne pz Pi Pl
        have "computeLPS_loop pat m lps plen i
                = computeLPS_loop pat m lps (lps ! (plen - 1)) i"
          by (subst computeLPS_loop.simps) simp
        with r show ?thesis by simp
      next
        case pz: True
        from inv pz have inv0: "lps_inv P lps 0 i" by simp
        from ne pz have ne0: "P ! i \<noteq> P ! 0" by simp
        from lps_inv_zero [OF inv0 iP ne0] have inv': "lps_inv P (lps[i := 0]) 0 (i + 1)" .
        from True pz have "2 * (m - (i + 1)) + 0 < 2 * (m - i) + plen" by linarith
        from less.hyps [OF this inv']
        obtain lps' where r: "computeLPS_loop pat m (lps[i := 0]) 0 (i + 1) = Some lps'"
          "length lps' = length lps" "\<forall>q < m. lps_ok P q (lps' ! q)"
          by auto
        from True ne pz Pi Pl
        have "computeLPS_loop pat m lps plen i = computeLPS_loop pat m (lps[i := 0]) 0 (i + 1)"
          by (subst computeLPS_loop.simps) simp
        with r show ?thesis by simp
      qed
    qed
  qed
qed

lemma computeLPS_correct:
  assumes "1 \<le> strlen pat" "strlen pat \<le> length lps0"
  shows "\<exists>lps. computeLPS pat (strlen pat) lps0 = Some lps
           \<and> (\<forall>q < strlen pat. lps_ok (fold_str pat) q (lps ! q))"
proof -
  from assms have "lps_inv (fold_str pat) (lps0[0 := 0]) 0 1"
    by (intro lps_inv_init) (simp_all add: length_fold_str)
  from computeLPS_loop_correct [OF refl refl this]
  show ?thesis unfolding computeLPS_def by blast
qed

subsection \<open>The scan\<close>

definition kmp_inv :: "'a list \<Rightarrow> 'a list \<Rightarrow> nat \<Rightarrow> nat \<Rightarrow> bool" where
  "kmp_inv T P i j \<longleftrightarrow>
     i \<le> length T \<and> j \<le> i \<and> j < length P
     \<and> (\<forall>k < j. T ! (i - j + k) = P ! k) \<and> (\<forall>s < i - j. \<not> match_at T P s)"

lemma kmp_inv_init: "0 < length P \<Longrightarrow> kmp_inv T P 0 0"
  by (simp add: kmp_inv_def)

lemma kmp_match_here:
  assumes inv: "kmp_inv T P i j" and i: "i < length T" and eq: "T ! i = P ! j"
  shows "\<forall>k < j + 1. T ! (i + 1 - (j + 1) + k) = P ! k"
proof (intro allI impI)
  fix k assume k: "k < j + 1"
  from inv have ji: "j \<le> i" and pre: "\<forall>k < j. T ! (i - j + k) = P ! k"
    unfolding kmp_inv_def by blast+
  have e: "i + 1 - (j + 1) + k = i - j + k" by linarith
  show "T ! (i + 1 - (j + 1) + k) = P ! k"
  proof (cases "k = j")
    case True
    from ji have "i - j + j = i" by linarith
    with True eq show ?thesis unfolding e by simp
  next
    case False
    with k have "k < j" by linarith
    with pre show ?thesis unfolding e by blast
  qed
qed

lemma kmp_found:
  assumes inv: "kmp_inv T P i j" and i: "i < length T" and eq: "T ! i = P ! j"
    and last: "j + 1 = length P"
  shows "is_first T P (Some (i + 1 - length P))"
proof -
  from inv have ji: "j \<le> i" and no: "\<forall>s < i - j. \<not> match_at T P s"
    unfolding kmp_inv_def by blast+
  from ji last have s: "i + 1 - length P = i - j" by linarith
  from kmp_match_here [OF inv i eq]
  have "\<forall>k < length P. T ! (i + 1 - length P + k) = P ! k" unfolding last .
  moreover from ji i last have "i + 1 - length P + length P \<le> length T" by linarith
  ultimately have "match_at T P (i + 1 - length P)" by (simp add: match_at_def)
  with no show ?thesis unfolding is_first_def s by simp
qed

lemma kmp_extend:
  assumes inv: "kmp_inv T P i j" and i: "i < length T" and eq: "T ! i = P ! j"
    and more: "j + 1 < length P"
  shows "kmp_inv T P (i + 1) (j + 1)"
proof -
  from inv have ji: "j \<le> i" and no: "\<forall>s < i - j. \<not> match_at T P s"
    unfolding kmp_inv_def by blast+
  have "i + 1 - (j + 1) = i - j" by linarith
  with no have "\<forall>s < i + 1 - (j + 1). \<not> match_at T P s" by simp
  with kmp_match_here [OF inv i eq] ji i more show ?thesis
    unfolding kmp_inv_def by simp
qed

lemma kmp_no_match_here:
  assumes inv: "kmp_inv T P i j" and i: "i < length T" and ne: "T ! i \<noteq> P ! j"
  shows "\<not> match_at T P (i - j)"
proof
  assume m: "match_at T P (i - j)"
  from inv have ji: "j \<le> i" and jm: "j < length P" unfolding kmp_inv_def by blast+
  from m jm have "T ! (i - j + j) = P ! j" unfolding match_at_def by blast
  moreover from ji have "i - j + j = i" by linarith
  ultimately show False using ne by simp
qed

lemma kmp_shift:
  assumes inv: "kmp_inv T P i j" and i: "i < length T" and ne: "T ! i \<noteq> P ! j"
    and j: "0 < j" and v: "lps_ok P (j - 1) v"
  shows "kmp_inv T P i v \<and> v < j"
proof -
  from inv have iT: "i \<le> length T" and ji: "j \<le> i" and jm: "j < length P"
    and pre: "\<forall>k < j. T ! (i - j + k) = P ! k" and no: "\<forall>s < i - j. \<not> match_at T P s"
    unfolding kmp_inv_def by blast+
  from j have "j - 1 + 1 = j" by simp
  with v have vb: "is_border P j v" and vmax: "\<forall>b. is_border P j b \<longrightarrow> b \<le> v"
    by (simp_all add: lps_ok_def)
  from vb have vj: "v < j" and vpre: "\<forall>k < v. P ! k = P ! (j - v + k)"
    by (simp_all add: is_border_def)
  have pre': "\<forall>k < v. T ! (i - v + k) = P ! k"
  proof (intro allI impI)
    fix k assume k: "k < v"
    with vj have "j - v + k < j" by linarith
    with pre have "T ! (i - j + (j - v + k)) = P ! (j - v + k)" by blast
    moreover from vj ji k have "i - j + (j - v + k) = i - v + k" by linarith
    moreover from vpre k have "P ! k = P ! (j - v + k)" by blast
    ultimately show "T ! (i - v + k) = P ! k" by simp
  qed
  have no': "\<forall>s < i - v. \<not> match_at T P s"
  proof (intro allI impI)
    fix s assume s: "s < i - v"
    show "\<not> match_at T P s"
    proof (cases "s < i - j")
      case True
      with no show ?thesis by blast
    next
      case False
      show ?thesis
      proof (cases "s = i - j")
        case True
        with kmp_no_match_here [OF inv i ne] show ?thesis by simp
      next
        case False
        with \<open>\<not> s < i - j\<close> have lo: "i - j < s" by linarith
        show ?thesis
        proof
          assume m: "match_at T P s"
          define b where "b = i - s"
          from lo s ji have bj: "b < j" and vb': "v < b" and si: "s + b = i"
            unfolding b_def by linarith+
          have "\<forall>k < b. P ! k = P ! (j - b + k)"
          proof (intro allI impI)
            fix k assume k: "k < b"
            with bj jm have "k < length P" by linarith
            with m have 1: "T ! (s + k) = P ! k" unfolding match_at_def by blast
            from k bj have "j - b + k < j" by linarith
            with pre have 2: "T ! (i - j + (j - b + k)) = P ! (j - b + k)" by blast
            from si bj ji k have "i - j + (j - b + k) = s + k" by linarith
            with 1 2 show "P ! k = P ! (j - b + k)" by simp
          qed
          with bj have "is_border P j b" by (simp add: is_border_def)
          with vmax have "b \<le> v" by blast
          with vb' show False by linarith
        qed
      qed
    qed
  qed
  from vj ji jm have "v \<le> i" "v < length P" by linarith+
  with iT pre' no' vj show ?thesis unfolding kmp_inv_def by simp
qed

lemma kmp_skip:
  assumes inv: "kmp_inv T P i 0" and i: "i < length T" and ne: "T ! i \<noteq> P ! 0"
  shows "kmp_inv T P (i + 1) 0"
proof -
  from inv have jm: "0 < length P" and no: "\<forall>s < i. \<not> match_at T P s"
    by (simp_all add: kmp_inv_def)
  from kmp_no_match_here [OF inv i ne] have "\<not> match_at T P i" by simp
  with no have "\<forall>s < i + 1. \<not> match_at T P s"
    by (metis Suc_eq_plus1 less_Suc_eq)
  with i jm show ?thesis unfolding kmp_inv_def by simp
qed

lemma kmp_none:
  assumes inv: "kmp_inv T P (length T) j"
  shows "is_first T P None"
proof -
  from inv have ji: "j \<le> length T" and jm: "j < length P"
    and no: "\<forall>s < length T - j. \<not> match_at T P s"
    by (simp_all add: kmp_inv_def)
  have "\<not> match_at T P s" for s
  proof (cases "s < length T - j")
    case True
    with no show ?thesis by blast
  next
    case False
    with jm ji have "\<not> s + length P \<le> length T" by linarith
    then show ?thesis by (simp add: match_at_def)
  qed
  then show ?thesis by (simp add: is_first_def)
qed

lemma rd_nonzero_iff: "i \<le> strlen a \<Longrightarrow> rd a i \<noteq> 0 \<longleftrightarrow> i < strlen a"
  using rd_strlen [of a] rd_nonzero [of i a] by (cases "i = strlen a") auto

lemma kmp_loop_correct:
  assumes T: "T = fold_str haystack" and P: "P = fold_str needle" and m: "m = strlen needle"
    and tab: "\<forall>q < m. lps_ok P q (lps ! q)"
  shows "kmp_inv T P i j \<Longrightarrow>
         \<exists>r. kmp_loop haystack needle m lps i j = Some r \<and> is_first T P r"
proof (induction "2 * (length T - i) + j" arbitrary: i j rule: less_induct)
  case less
  note inv = less.prems
  from T have lT: "length T = strlen haystack" by (simp add: length_fold_str)
  from P m have lP: "length P = m" by (simp add: length_fold_str)
  from inv lT lP have iT: "i \<le> strlen haystack" and jm: "j < m"
    by (simp_all add: kmp_inv_def)
  from jm m have Pj: "toLower (rd needle j) = P ! j" unfolding P by (simp add: fold_str_nth)
  show ?case
  proof (cases "i < strlen haystack")
    case False
    with iT have e: "i = length T" using lT by simp
    then have "rd haystack i = 0" using lT by (simp add: rd_strlen)
    then have "kmp_loop haystack needle m lps i j = Some None"
      by (subst kmp_loop.simps) simp
    moreover from inv e have "is_first T P None" by (simp add: kmp_none)
    ultimately show ?thesis by simp
  next
    case True
    then have nz: "rd haystack i \<noteq> 0" by (rule rd_nonzero)
    from True have Ti: "toLower (rd haystack i) = T ! i" unfolding T by (simp add: fold_str_nth)
    from True lT have i: "i < length T" by simp
    show ?thesis
    proof (cases "T ! i = P ! j")
      case eq: True
      show ?thesis
      proof (cases "j + 1 = m")
        case True
        with eq nz Ti Pj have "kmp_loop haystack needle m lps i j = Some (Some (i + 1 - m))"
          by (subst kmp_loop.simps) (simp add: Let_def)
        moreover from True lP have "j + 1 = length P" by simp
        with inv i eq have "is_first T P (Some (i + 1 - length P))" by (rule kmp_found)
        ultimately show ?thesis using lP by simp
      next
        case False
        with jm lP have more: "j + 1 < length P" by linarith
        with inv i eq have inv1: "kmp_inv T P (i + 1) (j + 1)" by (rule kmp_extend)
        from more lP m have Pj1: "toLower (rd needle (j + 1)) = P ! (j + 1)"
          unfolding P by (simp add: fold_str_nth)
        show ?thesis
        proof (cases "rd haystack (i + 1) \<noteq> 0
                      \<and> toLower (rd haystack (i + 1)) \<noteq> toLower (rd needle (j + 1))")
          case c: True
          from True have "i + 1 \<le> strlen haystack" by linarith
          with c have i1: "i + 1 < strlen haystack" by (simp add: rd_nonzero_iff)
          then have "toLower (rd haystack (i + 1)) = T ! (i + 1)"
            unfolding T by (simp add: fold_str_nth)
          with c Pj1 have ne1: "T ! (i + 1) \<noteq> P ! (j + 1)" by simp
          from jm tab have "lps_ok P (j + 1 - 1) (lps ! j)" by simp
          with kmp_shift [OF inv1 _ ne1, of "lps ! j"] i1 lT
          have inv2: "kmp_inv T P (i + 1) (lps ! j)" and dec: "lps ! j < j + 1" by simp_all
          from dec i have "2 * (length T - (i + 1)) + lps ! j < 2 * (length T - i) + j"
            by linarith
          from less.hyps [OF this inv2]
          obtain r where r: "kmp_loop haystack needle m lps (i + 1) (lps ! j) = Some r"
            "is_first T P r" by blast
          from eq nz Ti Pj False c
          have "kmp_loop haystack needle m lps i j
                  = kmp_loop haystack needle m lps (i + 1) (lps ! j)"
            by (subst kmp_loop.simps) (simp add: Let_def)
          with r show ?thesis by simp
        next
          case c: False
          from i have "2 * (length T - (i + 1)) + (j + 1) < 2 * (length T - i) + j"
            by linarith
          from less.hyps [OF this inv1]
          obtain r where r: "kmp_loop haystack needle m lps (i + 1) (j + 1) = Some r"
            "is_first T P r" by blast
          from eq nz Ti Pj False c
          have "kmp_loop haystack needle m lps i j
                  = kmp_loop haystack needle m lps (i + 1) (j + 1)"
            by (subst kmp_loop.simps) (auto simp add: Let_def)
          with r show ?thesis by simp
        qed
      qed
    next
      case ne: False
      show ?thesis
      proof (cases "j = 0")
        case jz: False
        then have j0: "0 < j" by simp
        from jm tab have "lps_ok P (j - 1) (lps ! (j - 1))" by simp
        from kmp_shift [OF inv i ne j0 this]
        have inv2: "kmp_inv T P i (lps ! (j - 1))" and dec: "lps ! (j - 1) < j" by simp_all
        from dec have "2 * (length T - i) + lps ! (j - 1) < 2 * (length T - i) + j"
          by linarith
        from less.hyps [OF this inv2]
        obtain r where r: "kmp_loop haystack needle m lps i (lps ! (j - 1)) = Some r"
          "is_first T P r" by blast
        from ne nz Ti Pj jz jm
        have "kmp_loop haystack needle m lps i j
                = kmp_loop haystack needle m lps i (lps ! (j - 1))"
          by (subst kmp_loop.simps) (simp add: Let_def)
        with r show ?thesis by simp
      next
        case jz: True
        from inv jz have inv0: "kmp_inv T P i 0" by simp
        from ne jz have ne0: "T ! i \<noteq> P ! 0" by simp
        from kmp_skip [OF inv0 i ne0] have inv2: "kmp_inv T P (i + 1) 0" .
        from i jz have "2 * (length T - (i + 1)) + 0 < 2 * (length T - i) + j" by linarith
        from less.hyps [OF this inv2]
        obtain r where r: "kmp_loop haystack needle m lps (i + 1) 0 = Some r"
          "is_first T P r" by blast
        from ne nz Ti Pj jz jm
        have "kmp_loop haystack needle m lps i j = kmp_loop haystack needle m lps (i + 1) 0"
          by (subst kmp_loop.simps) (simp add: Let_def)
        with r show ?thesis by simp
      qed
    qed
  qed
qed

lemma strcasestr_kmp_correct:
  assumes "1 \<le> strlen needle" "strlen needle \<le> length lps0"
  shows "\<exists>r. strcasestr_kmp lps0 haystack needle = Some r
              \<and> is_first (fold_str haystack) (fold_str needle) r"
proof -
  from computeLPS_correct [OF assms]
  obtain lps where l: "computeLPS needle (strlen needle) lps0 = Some lps"
    "\<forall>q < strlen needle. lps_ok (fold_str needle) q (lps ! q)" by blast
  from assms have "kmp_inv (fold_str haystack) (fold_str needle) 0 0"
    by (intro kmp_inv_init) (simp add: length_fold_str)
  from kmp_loop_correct [OF refl refl refl l(2) this] l(1)
  show ?thesis by (simp add: strcasestr_kmp_def)
qed

subsection \<open>The naive scan\<close>

lemma naive_inner_correct:
  assumes T: "T = fold_str haystack" and P: "P = fold_str needle"
  shows "n \<le> length P \<Longrightarrow> p + n \<le> length T \<Longrightarrow> \<forall>k < n. T ! (p + k) = P ! k \<Longrightarrow>
         \<exists>n'. naive_inner haystack needle (p + n) n = (p + n', n') \<and> n' \<le> length P
               \<and> (n' = length P \<longleftrightarrow> match_at T P p)"
proof (induction "length P - n" arbitrary: n rule: less_induct)
  case less
  from T have lT: "length T = strlen haystack" by (simp add: length_fold_str)
  from P have lP: "length P = strlen needle" by (simp add: length_fold_str)
  note n = less.prems(1) and pn = less.prems(2) and pre = less.prems(3)
  show ?case
  proof (cases "rd haystack (p + n) \<noteq> 0 \<and> rd needle n \<noteq> 0
                 \<and> toLower (rd haystack (p + n)) = toLower (rd needle n)")
    case c: True
    from c pn lT have h: "p + n < length T" by (simp add: rd_nonzero_iff)
    from c n lP have nl: "n < length P" by (simp add: rd_nonzero_iff)
    from h lT have "toLower (rd haystack (p + n)) = T ! (p + n)"
      unfolding T by (simp add: fold_str_nth)
    moreover from nl lP have "toLower (rd needle n) = P ! n"
      unfolding P by (simp add: fold_str_nth)
    ultimately have e: "T ! (p + n) = P ! n" using c by simp
    have pre': "\<forall>k < n + 1. T ! (p + k) = P ! k"
    proof (intro allI impI)
      fix k assume "k < n + 1"
      then consider "k < n" | "k = n" by linarith
      then show "T ! (p + k) = P ! k"
      proof cases
        case 1
        with pre show ?thesis by blast
      next
        case 2
        with e show ?thesis by simp
      qed
    qed
    from nl have "length P - (n + 1) < length P - n" "n + 1 \<le> length P" by linarith+
    moreover from h have "p + (n + 1) \<le> length T" by linarith
    ultimately obtain n' where r: "naive_inner haystack needle (p + (n + 1)) (n + 1) = (p + n', n')"
      "n' \<le> length P" "n' = length P \<longleftrightarrow> match_at T P p"
      using less.hyps [of "n + 1"] pre' by blast
    from c have "naive_inner haystack needle (p + n) n
                   = naive_inner haystack needle (p + n + 1) (n + 1)"
      by (subst naive_inner.simps) simp
    with r show ?thesis by (simp add: add.assoc)
  next
    case c: False
    then have ret: "naive_inner haystack needle (p + n) n = (p + n, n)"
      by (subst naive_inner.simps) auto
    have "n = length P \<longleftrightarrow> match_at T P p"
    proof
      assume "n = length P"
      with pre pn show "match_at T P p" by (simp add: match_at_def)
    next
      assume m: "match_at T P p"
      show "n = length P"
      proof (rule ccontr)
        assume "n \<noteq> length P"
        with n have nl: "n < length P" by linarith
        with m have h: "p + n < length T" and e: "T ! (p + n) = P ! n"
          unfolding match_at_def by (linarith, blast)
        from h lT have "rd haystack (p + n) \<noteq> 0" "toLower (rd haystack (p + n)) = T ! (p + n)"
          unfolding T by (simp_all add: rd_nonzero fold_str_nth)
        moreover from nl lP have "rd needle n \<noteq> 0" "toLower (rd needle n) = P ! n"
          unfolding P by (simp_all add: rd_nonzero fold_str_nth)
        ultimately show False using c e by simp
      qed
    qed
    with ret n show ?thesis by blast
  qed
qed

lemma naive_loop_correct:
  assumes T: "T = fold_str haystack" and P: "P = fold_str needle" and m: "1 \<le> length P"
  shows "p \<le> length T \<Longrightarrow> \<forall>s < p. \<not> match_at T P s \<Longrightarrow>
         is_first T P (naive_loop haystack needle (toLower (rd needle 0)) p)"
proof (induction "length T - p" arbitrary: p rule: less_induct)
  case less
  from T have lT: "length T = strlen haystack" by (simp add: length_fold_str)
  from P have lP: "length P = strlen needle" by (simp add: length_fold_str)
  from m lP have P0: "toLower (rd needle 0) = P ! 0" unfolding P by (simp add: fold_str_nth)
  note p = less.prems(1) and no = less.prems(2)
  have step: "is_first T P (naive_loop haystack needle (toLower (rd needle 0)) (p + 1))"
    if "p < length T" "\<not> match_at T P p"
  proof -
    from that(2) no have "\<forall>s < p + 1. \<not> match_at T P s"
      by (metis Suc_eq_plus1 less_Suc_eq)
    moreover from that(1) have "length T - (p + 1) < length T - p" "p + 1 \<le> length T"
      by linarith+
    ultimately show ?thesis using less.hyps [of "p + 1"] by blast
  qed
  show ?case
  proof (cases "p < length T")
    case False
    with p lT have "rd haystack p = 0" by (simp add: rd_strlen)
    then have "naive_loop haystack needle (toLower (rd needle 0)) p = None"
      by (subst naive_loop.simps) simp
    moreover have "\<not> match_at T P s" for s
    proof (cases "s < p")
      case True
      with no show ?thesis by blast
    next
      case False
      with \<open>\<not> p < length T\<close> m have "\<not> s + length P \<le> length T" by linarith
      then show ?thesis by (simp add: match_at_def)
    qed
    ultimately show ?thesis by (simp add: is_first_def)
  next
    case True
    with lT have nz: "rd haystack p \<noteq> 0" and Tp: "toLower (rd haystack p) = T ! p"
      unfolding T by (simp_all add: rd_nonzero fold_str_nth)
    show ?thesis
    proof (cases "T ! p = P ! 0")
      case False
      have "\<not> match_at T P p"
      proof
        assume "match_at T P p"
        with m have "T ! (p + 0) = P ! 0" unfolding match_at_def by (metis less_eq_Suc_le One_nat_def)
        with False show False by simp
      qed
      from step [OF True this] False nz Tp P0 show ?thesis
        by (subst naive_loop.simps) simp
    next
      case eq: True
      then have "\<forall>k < 1. T ! (p + k) = P ! k" by simp
      moreover from True have "p + 1 \<le> length T" by linarith
      ultimately obtain n' where r: "naive_inner haystack needle (p + 1) 1 = (p + n', n')"
        "n' \<le> length P" "n' = length P \<longleftrightarrow> match_at T P p"
        using naive_inner_correct [OF T P, of 1 p] m by blast
      from r(2) lP have z: "rd needle n' = 0 \<longleftrightarrow> n' = length P"
        using rd_nonzero_iff [of n' needle] by auto
      show ?thesis
      proof (cases "match_at T P p")
        case True
        with r z have "rd needle n' = 0" by simp
        with eq nz Tp P0 r(1)
        have "naive_loop haystack needle (toLower (rd needle 0)) p = Some p"
          by (subst naive_loop.simps) simp
        with True no show ?thesis by (simp add: is_first_def)
      next
        case False
        with r z have "rd needle n' \<noteq> 0" by simp
        with eq nz Tp P0 r(1)
        have "naive_loop haystack needle (toLower (rd needle 0)) p
                = naive_loop haystack needle (toLower (rd needle 0)) (p + 1)"
          by (subst naive_loop.simps) simp
        with step [OF \<open>p < length T\<close> False] show ?thesis by simp
      qed
    qed
  qed
qed

lemma strcasestr_naive_correct:
  assumes "1 \<le> strlen needle"
  shows "is_first (fold_str haystack) (fold_str needle) (strcasestr_naive haystack needle)"
  unfolding strcasestr_naive_def
  using assms by (intro naive_loop_correct [OF refl refl]) (simp_all add: length_fold_str)

text \<open>C5: for every haystack and every non-empty needle of at most 64 bytes, the KMP
  path of \<^verbatim>\<open>strcasestr\<close> (failure table and scan, whatever the table held before)
  returns, and returns what the naive scan of the long-pattern path returns; so does
  \<^verbatim>\<open>strcasestr\<close> itself, through which the case-insensitive \<^verbatim>\<open>find\<close>, \<^verbatim>\<open>contains\<close>
  and \<^verbatim>\<open>replace\<close> search.\<close>

theorem kmp_agrees_with_naive:
  assumes "rd needle 0 \<noteq> 0" and "strlen needle \<le> 64" and "length lps0 = 64"
  shows "strcasestr_kmp lps0 haystack needle = Some (strcasestr_naive haystack needle)
         \<and> strcasestr haystack needle = Some (strcasestr_naive haystack needle)"
proof -
  from assms(1) have m: "1 \<le> strlen needle"
    using rd_strlen [of needle] by (cases "strlen needle") auto
  have k: "strcasestr_kmp l haystack needle = Some (strcasestr_naive haystack needle)"
    if "length l = 64" for l
  proof -
    from that assms(2) have "strlen needle \<le> length l" by simp
    from strcasestr_kmp_correct [OF m this]
    obtain r where r: "strcasestr_kmp l haystack needle = Some r"
      "is_first (fold_str haystack) (fold_str needle) r" by blast
    from r(2) strcasestr_naive_correct [OF m] have "r = strcasestr_naive haystack needle"
      by (rule is_first_unique)
    with r(1) show ?thesis by simp
  qed
  from k [OF assms(3)] k [of "replicate 64 0"] assms(1,2) show ?thesis
    by (simp add: strcasestr_def)
qed

theorem kmp_agrees_with_naive_witness:
  "rd (bytes ''AABAAA'' @ [0]) 0 \<noteq> 0 \<and> strlen (bytes ''AABAAA'' @ [0]) \<le> 64
   \<and> length (replicate 64 (7::nat)) = 64
   \<and> strcasestr_kmp (replicate 64 7) (bytes ''aabaabaaab'' @ [0]) (bytes ''AABAAA'' @ [0])
       = Some (strcasestr_naive (bytes ''aabaabaaab'' @ [0]) (bytes ''AABAAA'' @ [0]))
   \<and> strcasestr (bytes ''aabaabaaab'' @ [0]) (bytes ''AABAAA'' @ [0])
       = Some (strcasestr_naive (bytes ''aabaabaaab'' @ [0]) (bytes ''AABAAA'' @ [0]))
   \<and> strcasestr_naive (bytes ''aabaabaaab'' @ [0]) (bytes ''AABAAA'' @ [0]) = Some 3"
proof -
  have h1: "rd (bytes ''AABAAA'' @ [0]) 0 \<noteq> 0" by code_simp
  have h2: "strlen (bytes ''AABAAA'' @ [0]) \<le> 64" by code_simp
  have h3: "length (replicate 64 (7::nat)) = 64" by simp
  have v: "strcasestr_naive (bytes ''aabaabaaab'' @ [0]) (bytes ''AABAAA'' @ [0]) = Some 3"
    by code_simp
  from h1 h2 h3 v kmp_agrees_with_naive [OF h1 h2 h3, of "bytes ''aabaabaaab'' @ [0]"]
  show ?thesis by blast
qed

section \<open>Malformed input: null pointers, empty patterns, indices out of range (C7)\<close>

subsection \<open>The model of \<^verbatim>\<open>find\<close>, \<^verbatim>\<open>contains\<close> and \<^verbatim>\<open>toInt\<close>\<close>

text \<open>A pointer that may be null is an \<open>option\<close>; \<open>None\<close> is the null pointer.\<close>

text \<open>Modelled from the C standard: \<^verbatim>\<open>strstr\<close> and \<^verbatim>\<open>strchr\<close> of the C library return the
  first occurrence, as an offset here.\<close>

definition strstr :: "byte list \<Rightarrow> byte list \<Rightarrow> nat option" where
  "strstr haystack needle =
     (let h = cstr haystack 0; n = cstr needle 0
      in if length n > length h then None
         else List.find (\<lambda>s. take (length n) (drop s h) = n) [0 ..< length h - length n + 1])"

definition strchr :: "byte list \<Rightarrow> byte \<Rightarrow> nat option" where
  "strchr s c =
     (if c = 0 then Some (strlen s)
      else List.find (\<lambda>i. cstr s 0 ! i = c) [0 ..< strlen s])"

text \<open>\<^verbatim>\<open>findUtf8CharStart\<close>: its two loops.\<close>

function char_start_loop :: "byte list \<Rightarrow> nat \<Rightarrow> nat \<Rightarrow> nat \<Rightarrow> nat" where
  "char_start_loop str charIdx p count =
     (if rd str p \<noteq> 0 \<and> count < charIdx
      then char_start_loop str charIdx (p + 1)
             (if rd str p AND 0xC0 \<noteq> 0x80 then count + 1 else count)
      else p)"
  by pat_completeness auto
termination
  by (relation "measure (\<lambda>(str, charIdx, p, count). length str - p)")
     (auto simp: rd_def split: if_splits)
declare char_start_loop.simps [simp del]

function skip_continuation :: "byte list \<Rightarrow> nat \<Rightarrow> nat" where
  "skip_continuation str p =
     (if rd str p \<noteq> 0 \<and> rd str p AND 0xC0 = 0x80 then skip_continuation str (p + 1) else p)"
  by pat_completeness auto
termination
  by (relation "measure (\<lambda>(str, p). length str - p)")
     (auto simp: rd_def split: if_splits)
declare skip_continuation.simps [simp del]

definition findUtf8CharStart :: "byte list \<Rightarrow> nat \<Rightarrow> nat" where
  "findUtf8CharStart str charIdx = skip_continuation str (char_start_loop str charIdx 0 0)"

text \<open>\<^verbatim>\<open>utf8_strlen\<close>: the run of leading ASCII bytes, then the general count.\<close>

function ascii_run :: "byte list \<Rightarrow> nat \<Rightarrow> nat \<Rightarrow> nat \<times> nat" where
  "ascii_run str p count =
     (if rd str p \<noteq> 0 \<and> rd str p < 0x80 then ascii_run str (p + 1) (count + 1) else (p, count))"
  by pat_completeness auto
termination
  by (relation "measure (\<lambda>(str, p, count). length str - p)")
     (auto simp: rd_def split: if_splits)
declare ascii_run.simps [simp del]

function count_loop :: "byte list \<Rightarrow> nat \<Rightarrow> nat \<Rightarrow> nat" where
  "count_loop str p count =
     (if rd str p \<noteq> 0
      then count_loop str (p + 1) (if rd str p AND 0xC0 \<noteq> 0x80 then count + 1 else count)
      else count)"
  by pat_completeness auto
termination
  by (relation "measure (\<lambda>(str, p, count). length str - p)")
     (auto simp: rd_def split: if_splits)
declare count_loop.simps [simp del]

definition utf8_strlen :: "byte list option \<Rightarrow> nat" where
  "utf8_strlen str =
     (case str of
        None \<Rightarrow> 0
      | Some s \<Rightarrow>
          (case ascii_run s 0 0 of
             (p, count) \<Rightarrow> if rd s p = 0 then count else count_loop s p count))"

text \<open>\<^verbatim>\<open>find\<close>, with the lengths given and without.  The count of the characters between
  the start and the match is the number of bytes there that are not continuation
  bytes.  The result is \<open>None\<close> where the search does not return.\<close>

definition find_len :: "byte list option \<Rightarrow> nat \<Rightarrow> byte list option \<Rightarrow> nat \<Rightarrow> nat \<Rightarrow> bool
    \<Rightarrow> int option" where
  "find_len str strLen target targetLen startChar ignoreCase =
     (case (str, target) of
        (Some s, Some t) \<Rightarrow>
          if targetLen = 0 \<or> targetLen > strLen then Some (- 1)
          else
            let startPtr = findUtf8CharStart s startChar
            in if rd s startPtr = 0 then Some (- 1)
               else (case (if ignoreCase then strcasestr (drop startPtr s) t
                           else Some (strstr (drop startPtr s) t)) of
                       None \<Rightarrow> None
                     | Some None \<Rightarrow> Some (- 1)
                     | Some (Some found) \<Rightarrow>
                         Some (int (startChar
                           + length (filter (\<lambda>b. b AND 0xC0 \<noteq> 0x80)
                                       (take found (drop startPtr s))))))
      | _ \<Rightarrow> Some (- 1))"

definition find_str :: "byte list option \<Rightarrow> byte list option \<Rightarrow> nat \<Rightarrow> bool \<Rightarrow> int option" where
  "find_str str target startChar ignoreCase =
     (case (str, target) of
        (Some s, Some t) \<Rightarrow> find_len str (strlen s) target (strlen t) startChar ignoreCase
      | _ \<Rightarrow> Some (- 1))"

definition contains_len :: "byte list option \<Rightarrow> nat \<Rightarrow> byte list option \<Rightarrow> nat \<Rightarrow> bool
    \<Rightarrow> bool option" where
  "contains_len str strLen target targetLen ignoreCase =
     (case (str, target) of
        (Some s, Some t) \<Rightarrow>
          if targetLen > strLen then Some False
          else if targetLen = 0 then Some True
          else (case (if ignoreCase then strcasestr s t else Some (strstr s t)) of
                  None \<Rightarrow> None
                | Some r \<Rightarrow> Some (r \<noteq> None))
      | _ \<Rightarrow> Some False)"

definition contains :: "byte list option \<Rightarrow> byte list option \<Rightarrow> bool \<Rightarrow> bool option" where
  "contains str target ignoreCase =
     (case (str, target) of
        (Some s, Some t) \<Rightarrow> contains_len str (strlen s) target (strlen t) ignoreCase
      | _ \<Rightarrow> Some False)"

text \<open>\<^verbatim>\<open>toInt\<close>.  The classification \<^verbatim>\<open>isSpace\<close> of \<^verbatim>\<open>cmsStringUtil.h\<close> is not among the
  sources and is a parameter; \<^verbatim>\<open>isDigit\<close> on a byte is the range of the decimal digits,
  as the subtraction of \<^verbatim>\<open>'0'\<close> needs.  The accumulator is a \<^verbatim>\<open>long long\<close>: where it
  would overflow the result is \<open>None\<close>; the final cast to \<^verbatim>\<open>int\<close> keeps the low 32
  bits.\<close>

definition isDigit :: "byte \<Rightarrow> bool" where
  "isDigit c \<longleftrightarrow> 0x30 \<le> c \<and> c \<le> 0x39"

function skip_space :: "(byte \<Rightarrow> bool) \<Rightarrow> byte list \<Rightarrow> nat \<Rightarrow> nat \<Rightarrow> nat" where
  "skip_space isSpace str n i =
     (if i < n \<and> isSpace (rd str i) then skip_space isSpace str n (i + 1) else i)"
  by pat_completeness auto
termination
  by (relation "measure (\<lambda>(isSpace, str, n, i). n - i)") auto
declare skip_space.simps [simp del]

function digits_loop :: "byte list \<Rightarrow> nat \<Rightarrow> nat \<Rightarrow> int \<Rightarrow> int option" where
  "digits_loop str n i val =
     (if i < n \<and> isDigit (rd str i)
      then (if val * 10 + (uint (rd str i) - 0x30) < 2 ^ 63
            then digits_loop str n (i + 1) (val * 10 + (uint (rd str i) - 0x30))
            else None)
      else Some val)"
  by pat_completeness auto
termination
  by (relation "measure (\<lambda>(str, n, i, val). n - i)") auto
declare digits_loop.simps [simp del]

definition toInt_len :: "(byte \<Rightarrow> bool) \<Rightarrow> byte list option \<Rightarrow> nat \<Rightarrow> int option" where
  "toInt_len isSpace str n =
     (case str of
        None \<Rightarrow> Some 0
      | Some s \<Rightarrow>
          if n = 0 then Some 0
          else
            let i = skip_space isSpace s n 0
            in if i = n then Some 0
               else
                 let sign = (if rd s i = 0x2D then - 1 else 1);
                     i1 = (if rd s i = 0x2D \<or> rd s i = 0x2B then i + 1 else i)
                 in (case digits_loop s n i1 0 of
                       None \<Rightarrow> None
                     | Some val \<Rightarrow> Some (sint (word_of_int (val * sign) :: 32 word))))"

definition toInt :: "(byte \<Rightarrow> bool) \<Rightarrow> byte list option \<Rightarrow> int option" where
  "toInt isSpace str =
     (case str of
        None \<Rightarrow> Some 0
      | Some s \<Rightarrow> if rd s 0 = 0 then Some 0 else toInt_len isSpace str (strlen s))"

subsection \<open>A start index past the last character\<close>

text \<open>A byte is a continuation byte exactly when it lies in 0x80..0xBF; checked on all
  256 bytes.\<close>

lemma cont_byte_all: "\<forall>b :: byte. (b AND 0xC0 = 0x80) = (0x80 \<le> b \<and> b \<le> 0xBF)"
  by code_simp

lemma cont_byte_iff: "(b :: byte) AND 0xC0 = 0x80 \<longleftrightarrow> 0x80 \<le> b \<and> b \<le> 0xBF"
  using cont_byte_all by blast

definition lead_count :: "byte list \<Rightarrow> nat" where
  "lead_count xs = length (filter (\<lambda>b. b AND 0xC0 \<noteq> 0x80) xs)"

lemma lead_count_drop:
  "p < length xs \<Longrightarrow>
   lead_count (drop p xs) = (if xs ! p AND 0xC0 \<noteq> 0x80 then 1 else 0) + lead_count (drop (p + 1) xs)"
  by (simp add: lead_count_def Cons_nth_drop_Suc [symmetric])

lemma count_loop_eq:
  "p \<le> strlen s \<Longrightarrow> count_loop s p c = c + lead_count (drop p (cstr s 0))"
proof (induction "strlen s - p" arbitrary: p c rule: less_induct)
  case less
  show ?case
  proof (cases "p < strlen s")
    case False
    with less.prems have "p = strlen s" by simp
    then have "rd s p = 0" by (simp only: rd_strlen)
    moreover from \<open>p = strlen s\<close> have "drop p (cstr s 0) = []" by (simp add: strlen_def)
    ultimately show ?thesis by (subst count_loop.simps) (simp add: lead_count_def)
  next
    case True
    then have nz: "rd s p \<noteq> 0" and e: "rd s p = cstr s 0 ! p"
      by (rule rd_nonzero, rule rd_cstr)
    from True have l: "p < length (cstr s 0)" by (simp add: strlen_def)
    from True have "strlen s - (p + 1) < strlen s - p" "p + 1 \<le> strlen s" by linarith+
    from less.hyps [OF this]
    have "count_loop s (p + 1) c' = c' + lead_count (drop (p + 1) (cstr s 0))" for c' .
    with nz e lead_count_drop [OF l] show ?thesis
      by (subst count_loop.simps) simp
  qed
qed

lemma ascii_run_eq:
  "p \<le> strlen s \<Longrightarrow>
   (case ascii_run s p c of (p', c') \<Rightarrow> if rd s p' = 0 then c' else count_loop s p' c')
     = c + lead_count (drop p (cstr s 0))"
proof (induction "strlen s - p" arbitrary: p c rule: less_induct)
  case less
  show ?case
  proof (cases "rd s p \<noteq> 0 \<and> rd s p < 0x80")
    case False
    then have r: "ascii_run s p c = (p, c)" by (subst ascii_run.simps) auto
    show ?thesis
    proof (cases "rd s p = 0")
      case True
      with less.prems have "p = strlen s" using rd_nonzero [of p s] by (cases "p < strlen s") auto
      then have "drop p (cstr s 0) = []" by (simp add: strlen_def)
      with r True show ?thesis by (simp add: lead_count_def)
    next
      case False
      with r count_loop_eq [OF less.prems] show ?thesis by simp
    qed
  next
    case True
    with less.prems have lt: "p < strlen s" using rd_strlen [of s] by (cases "p = strlen s") auto
    then have e: "rd s p = cstr s 0 ! p" by (simp add: rd_cstr)
    from lt have l: "p < length (cstr s 0)" by (simp add: strlen_def)
    from True have "rd s p < 0x80" by blast
    then have "\<not> (0x80 \<le> rd s p)" by (simp only: not_le)
    then have nc: "rd s p AND 0xC0 \<noteq> 0x80" by (simp add: cont_byte_iff)
    from lt have "strlen s - (p + 1) < strlen s - p" "p + 1 \<le> strlen s" by linarith+
    from less.hyps [OF this, of "c + 1"] True nc e lead_count_drop [OF l]
    show ?thesis by (subst ascii_run.simps) simp
  qed
qed

lemma utf8_strlen_eq: "utf8_strlen (Some s) = lead_count (cstr s 0)"
  using ascii_run_eq [of 0 s 0] by (simp add: utf8_strlen_def)

lemma skip_continuation_end:
  "p \<le> strlen s \<Longrightarrow> lead_count (drop p (cstr s 0)) = 0 \<Longrightarrow> skip_continuation s p = strlen s"
proof (induction "strlen s - p" arbitrary: p rule: less_induct)
  case less
  show ?case
  proof (cases "p < strlen s")
    case False
    with less.prems have "p = strlen s" by simp
    then show ?thesis by (subst skip_continuation.simps) (simp add: rd_strlen)
  next
    case True
    then have nz: "rd s p \<noteq> 0" and e: "rd s p = cstr s 0 ! p"
      by (rule rd_nonzero, rule rd_cstr)
    from True have l: "p < length (cstr s 0)" by (simp add: strlen_def)
    from less.prems(2) lead_count_drop [OF l]
    have c: "cstr s 0 ! p AND 0xC0 = 0x80" and r: "lead_count (drop (p + 1) (cstr s 0)) = 0"
      by (auto split: if_splits)
    from True have "strlen s - (p + 1) < strlen s - p" "p + 1 \<le> strlen s" by linarith+
    from less.hyps [OF this r] nz e c show ?thesis
      by (subst skip_continuation.simps) simp
  qed
qed

lemma char_start_loop_past:
  "p \<le> strlen s \<Longrightarrow> c + lead_count (drop p (cstr s 0)) \<le> charIdx \<Longrightarrow>
   char_start_loop s charIdx p c \<le> strlen s
   \<and> lead_count (drop (char_start_loop s charIdx p c) (cstr s 0)) = 0"
proof (induction "strlen s - p" arbitrary: p c rule: less_induct)
  case less
  show ?case
  proof (cases "rd s p \<noteq> 0 \<and> c < charIdx")
    case False
    then have r: "char_start_loop s charIdx p c = p" by (subst char_start_loop.simps) auto
    show ?thesis
    proof (cases "rd s p = 0")
      case True
      with less.prems have "p = strlen s" using rd_nonzero [of p s] by (cases "p < strlen s") auto
      then have "drop p (cstr s 0) = []" by (simp add: strlen_def)
      with r less.prems show ?thesis by (simp add: lead_count_def)
    next
      case nz: False
      with False have "charIdx \<le> c" by simp
      with less.prems(2) have "lead_count (drop p (cstr s 0)) = 0" by linarith
      with r less.prems show ?thesis by simp
    qed
  next
    case True
    with less.prems have lt: "p < strlen s" using rd_strlen [of s] by (cases "p = strlen s") auto
    then have e: "rd s p = cstr s 0 ! p" by (simp add: rd_cstr)
    from lt have l: "p < length (cstr s 0)" by (simp add: strlen_def)
    define c' where "c' = (if rd s p AND 0xC0 \<noteq> 0x80 then c + 1 else c)"
    from less.prems(2) lead_count_drop [OF l] e
    have b: "c' + lead_count (drop (p + 1) (cstr s 0)) \<le> charIdx"
      unfolding c'_def by (auto split: if_splits)
    from lt have "strlen s - (p + 1) < strlen s - p" "p + 1 \<le> strlen s" by linarith+
    from less.hyps [OF this b]
    have "char_start_loop s charIdx (p + 1) c' \<le> strlen s
          \<and> lead_count (drop (char_start_loop s charIdx (p + 1) c') (cstr s 0)) = 0" .
    moreover from True have "char_start_loop s charIdx p c = char_start_loop s charIdx (p + 1) c'"
      unfolding c'_def by (subst char_start_loop.simps) simp
    ultimately show ?thesis by simp
  qed
qed

lemma findUtf8CharStart_past:
  assumes "utf8_strlen (Some s) \<le> charIdx"
  shows "rd s (findUtf8CharStart s charIdx) = 0"
proof -
  from assms have "0 + lead_count (drop 0 (cstr s 0)) \<le> charIdx" by (simp add: utf8_strlen_eq)
  from char_start_loop_past [OF _ this]
  have "char_start_loop s charIdx 0 0 \<le> strlen s"
    "lead_count (drop (char_start_loop s charIdx 0 0) (cstr s 0)) = 0" by simp_all
  then have "findUtf8CharStart s charIdx = strlen s"
    unfolding findUtf8CharStart_def by (rule skip_continuation_end)
  then show ?thesis by (simp add: rd_strlen)
qed

subsection \<open>The claim\<close>

text \<open>C7, as the spec states it: an empty pattern makes every predicate return false, in
  particular \<^verbatim>\<open>contains\<close> with an empty target.  The code returns true there, by an
  explicit guard (\<^verbatim>\<open>if (targetLen == 0) return true\<close>).\<close>

theorem contains_empty_target_true:
  "contains (Some (bytes ''abc'' @ [0])) (Some [0]) False = Some True"
  by code_simp

text \<open>C7, amended: for \<^verbatim>\<open>contains\<close>, \<^verbatim>\<open>find\<close> and \<^verbatim>\<open>toInt\<close>, a null pointer gives the
  neutral value (false, -1, 0); an empty target gives -1 from \<^verbatim>\<open>find\<close> and true from
  \<^verbatim>\<open>contains\<close>; a start index at or past the number of characters gives -1 from
  \<^verbatim>\<open>find\<close>; a length of zero or an empty string gives 0 from \<^verbatim>\<open>toInt\<close>.  Every one of
  these calls returns, and none writes to an array.\<close>

theorem malformed_input_neutral:
  "contains None target ignoreCase = Some False
   \<and> contains str None ignoreCase = Some False
   \<and> contains_len None strLen target targetLen ignoreCase = Some False
   \<and> contains_len str strLen None targetLen ignoreCase = Some False
   \<and> (rd t 0 = 0 \<longrightarrow> contains (Some s) (Some t) ignoreCase = Some True)
   \<and> find_str None target startChar ignoreCase = Some (- 1)
   \<and> find_str str None startChar ignoreCase = Some (- 1)
   \<and> find_len None strLen target targetLen startChar ignoreCase = Some (- 1)
   \<and> find_len str strLen None targetLen startChar ignoreCase = Some (- 1)
   \<and> find_len str strLen target 0 startChar ignoreCase = Some (- 1)
   \<and> (rd t 0 = 0 \<longrightarrow> find_str (Some s) (Some t) startChar ignoreCase = Some (- 1))
   \<and> (utf8_strlen (Some s) \<le> startChar \<longrightarrow>
        find_str (Some s) (Some t) startChar ignoreCase = Some (- 1))
   \<and> toInt isSpace None = Some 0
   \<and> toInt_len isSpace None n = Some 0
   \<and> toInt_len isSpace str 0 = Some 0
   \<and> (rd s 0 = 0 \<longrightarrow> toInt isSpace (Some s) = Some 0)"
proof -
  have e: "strlen t = 0" if "rd t 0 = 0"
    using that rd_nonzero [of 0 t] by (cases "strlen t") auto
  have 1: "contains (Some s) (Some t) ignoreCase = Some True" if "rd t 0 = 0"
    using e [OF that] by (simp add: contains_def contains_len_def)
  have 2: "find_str (Some s) (Some t) startChar ignoreCase = Some (- 1)" if "rd t 0 = 0"
    using e [OF that] by (simp add: find_str_def find_len_def)
  have 3: "find_str (Some s) (Some t) startChar ignoreCase = Some (- 1)"
    if "utf8_strlen (Some s) \<le> startChar"
    using findUtf8CharStart_past [OF that] by (simp add: find_str_def find_len_def)
  have 4: "contains None target ignoreCase = Some False"
    "contains_len None strLen target targetLen ignoreCase = Some False"
    "find_str None target startChar ignoreCase = Some (- 1)"
    "find_len None strLen target targetLen startChar ignoreCase = Some (- 1)"
    by (simp_all add: contains_def contains_len_def find_str_def find_len_def)
  have 5: "contains str None ignoreCase = Some False"
    "contains_len str strLen None targetLen ignoreCase = Some False"
    "find_str str None startChar ignoreCase = Some (- 1)"
    "find_len str strLen None targetLen startChar ignoreCase = Some (- 1)"
    "find_len str strLen target 0 startChar ignoreCase = Some (- 1)"
    by (simp_all add: contains_def contains_len_def find_str_def find_len_def
          split: option.splits)
  have 6: "toInt isSpace None = Some 0" "toInt_len isSpace None n = Some 0"
    "toInt_len isSpace str 0 = Some 0"
    by (simp_all add: toInt_def toInt_len_def split: option.splits)
  have 7: "toInt isSpace (Some s) = Some 0" if "rd s 0 = 0"
    using that by (simp add: toInt_def)
  from 1 2 3 4 5 6 7 show ?thesis by blast
qed

theorem malformed_input_neutral_witness:
  "rd [0] 0 = 0
   \<and> contains (Some (bytes ''abc'' @ [0])) (Some [0]) True = Some True
   \<and> find_str (Some (bytes ''abc'' @ [0])) (Some [0]) 0 True = Some (- 1)
   \<and> utf8_strlen (Some [0x41, 0xEA, 0xB0, 0x80, 0x42, 0]) \<le> 3
   \<and> find_str (Some [0x41, 0xEA, 0xB0, 0x80, 0x42, 0]) (Some (bytes ''B'' @ [0])) 3 False
       = Some (- 1)
   \<and> toInt (\<lambda>c. c = 0x20) (Some [0]) = Some 0"
proof -
  have h1: "rd [0] 0 = 0" by (simp add: rd_def)
  have h2: "utf8_strlen (Some [0x41, 0xEA, 0xB0, 0x80, 0x42, 0]) \<le> 3" by code_simp
  note t = malformed_input_neutral
  from h1 t [where t = "[0]" and s = "bytes ''abc'' @ [0]" and ignoreCase = True
      and startChar = 0]
  have c1: "contains (Some (bytes ''abc'' @ [0])) (Some [0]) True = Some True"
    and c2: "find_str (Some (bytes ''abc'' @ [0])) (Some [0]) 0 True = Some (- 1)"
    by blast+
  from h2 t [where s = "[0x41, 0xEA, 0xB0, 0x80, 0x42, 0]" and t = "bytes ''B'' @ [0]"
      and ignoreCase = False and startChar = 3]
  have c3: "find_str (Some [0x41, 0xEA, 0xB0, 0x80, 0x42, 0]) (Some (bytes ''B'' @ [0])) 3 False
              = Some (- 1)"
    by blast
  from h1 t [where s = "[0]" and isSpace = "\<lambda>c. c = 0x20"]
  have c4: "toInt (\<lambda>c. c = 0x20) (Some [0]) = Some 0" by blast
  from h1 h2 c1 c2 c3 c4 show ?thesis by blast
qed

section \<open>Negative numbers (C9)\<close>

subsection \<open>Facts about machine words\<close>





subsection \<open>The table of digit pairs\<close>






subsection \<open>Decimal digits\<close>








subsection \<open>The loops of the unsigned path\<close>










subsection \<open>The claim\<close>



section \<open>The sanitizer produces valid UTF-8 and is idempotent (C1)\<close>

subsection \<open>The two scanners read the same table\<close>

text \<open>Both \<^verbatim>\<open>validateUtf8\<close> and \<^verbatim>\<open>sanitizeUtf8\<close> branch on the lead byte and then test the
  bytes that follow.  \<open>seq_class\<close> is the table both branch lists encode: the length of the
  sequence a lead byte starts and the range allowed for its second byte; \<open>tail_ok\<close> is the
  test of the following bytes.  The two lemmas \<open>validate_step_class\<close> and
  \<open>sanitize_step_class\<close> show that each branch list is this table.\<close>

definition seq_class :: "byte \<Rightarrow> (nat \<times> byte \<times> byte) option" where
  "seq_class a =
     (if a \<le> 0x7F then Some (1, 0, 0)
      else if 0xC2 \<le> a \<and> a \<le> 0xDF then Some (2, 0x80, 0xBF)
      else if a = 0xE0 then Some (3, 0xA0, 0xBF)
      else if 0xE1 \<le> a \<and> a \<le> 0xEC then Some (3, 0x80, 0xBF)
      else if a = 0xED then Some (3, 0x80, 0x9F)
      else if 0xEE \<le> a \<and> a \<le> 0xEF then Some (3, 0x80, 0xBF)
      else if a = 0xF0 then Some (4, 0x90, 0xBF)
      else if 0xF1 \<le> a \<and> a \<le> 0xF3 then Some (4, 0x80, 0xBF)
      else if a = 0xF4 then Some (4, 0x80, 0x8F)
      else None)"

definition tail_ok :: "nat \<Rightarrow> byte \<Rightarrow> byte \<Rightarrow> byte \<Rightarrow> byte \<Rightarrow> byte \<Rightarrow> bool" where
  "tail_ok k lo hi b1 b2 b3 \<longleftrightarrow>
     (2 \<le> k \<longrightarrow> lo \<le> b1 \<and> b1 \<le> hi)
     \<and> (3 \<le> k \<longrightarrow> b2 AND 0xC0 = 0x80) \<and> (4 \<le> k \<longrightarrow> b3 AND 0xC0 = 0x80)"

lemma byte_cases:
  fixes a :: byte
  obtains
    (ascii) "a \<le> 0x7F"
  | (two) "\<not> a \<le> 0x7F" "0xC2 \<le> a \<and> a \<le> 0xDF"
  | (e0) "\<not> a \<le> 0x7F" "\<not> (0xC2 \<le> a \<and> a \<le> 0xDF)" "a = 0xE0"
  | (e1) "\<not> a \<le> 0x7F" "\<not> (0xC2 \<le> a \<and> a \<le> 0xDF)" "a \<noteq> 0xE0" "0xE1 \<le> a \<and> a \<le> 0xEC"
  | (ed) "\<not> a \<le> 0x7F" "\<not> (0xC2 \<le> a \<and> a \<le> 0xDF)" "a \<noteq> 0xE0"
      "\<not> (0xE1 \<le> a \<and> a \<le> 0xEC)" "a = 0xED"
  | (ee) "\<not> a \<le> 0x7F" "\<not> (0xC2 \<le> a \<and> a \<le> 0xDF)" "a \<noteq> 0xE0"
      "\<not> (0xE1 \<le> a \<and> a \<le> 0xEC)" "a \<noteq> 0xED" "0xEE \<le> a \<and> a \<le> 0xEF"
  | (f0) "\<not> a \<le> 0x7F" "\<not> (0xC2 \<le> a \<and> a \<le> 0xDF)" "a \<noteq> 0xE0"
      "\<not> (0xE1 \<le> a \<and> a \<le> 0xEC)" "a \<noteq> 0xED" "\<not> (0xEE \<le> a \<and> a \<le> 0xEF)" "a = 0xF0"
  | (f1) "\<not> a \<le> 0x7F" "\<not> (0xC2 \<le> a \<and> a \<le> 0xDF)" "a \<noteq> 0xE0"
      "\<not> (0xE1 \<le> a \<and> a \<le> 0xEC)" "a \<noteq> 0xED" "\<not> (0xEE \<le> a \<and> a \<le> 0xEF)" "a \<noteq> 0xF0"
      "0xF1 \<le> a \<and> a \<le> 0xF3"
  | (f4) "\<not> a \<le> 0x7F" "\<not> (0xC2 \<le> a \<and> a \<le> 0xDF)" "a \<noteq> 0xE0"
      "\<not> (0xE1 \<le> a \<and> a \<le> 0xEC)" "a \<noteq> 0xED" "\<not> (0xEE \<le> a \<and> a \<le> 0xEF)" "a \<noteq> 0xF0"
      "\<not> (0xF1 \<le> a \<and> a \<le> 0xF3)" "a = 0xF4"
  | (bad) "\<not> a \<le> 0x7F" "\<not> (0xC2 \<le> a \<and> a \<le> 0xDF)" "a \<noteq> 0xE0"
      "\<not> (0xE1 \<le> a \<and> a \<le> 0xEC)" "a \<noteq> 0xED" "\<not> (0xEE \<le> a \<and> a \<le> 0xEF)" "a \<noteq> 0xF0"
      "\<not> (0xF1 \<le> a \<and> a \<le> 0xF3)" "a \<noteq> 0xF4"
  by blast

lemma nz: "(0x80 :: byte) \<le> b \<Longrightarrow> b \<noteq> 0" "(0xA0 :: byte) \<le> b \<Longrightarrow> b \<noteq> 0"
  "(0x90 :: byte) \<le> b \<Longrightarrow> b \<noteq> 0"
  by auto

lemma validate_step_class:
  "validate_step str i =
     (case seq_class (rd str i) of
        None \<Rightarrow> None
      | Some (k, lo, hi) \<Rightarrow>
          if tail_ok k lo hi (rd str (i + 1)) (rd str (i + 2)) (rd str (i + 3)) then Some k
          else None)"
proof (cases "rd str i" rule: byte_cases)
  case ascii
  then show ?thesis by (simp add: validate_step_def seq_class_def tail_ok_def)
next
  case two
  then show ?thesis by (simp add: validate_step_def seq_class_def tail_ok_def cont_byte_iff)
next
  case e0
  then show ?thesis
    by (simp add: validate_step_def seq_class_def tail_ok_def cont_byte_iff not_less not_le)
next
  case e1
  then show ?thesis by (simp add: validate_step_def seq_class_def tail_ok_def cont_byte_iff)
next
  case ed
  then show ?thesis
    by (simp add: validate_step_def seq_class_def tail_ok_def cont_byte_iff not_less not_le)
next
  case ee
  then show ?thesis by (simp add: validate_step_def seq_class_def tail_ok_def cont_byte_iff)
next
  case f0
  then show ?thesis
    by (simp add: validate_step_def seq_class_def tail_ok_def cont_byte_iff not_less not_le)
next
  case f1
  then show ?thesis by (simp add: validate_step_def seq_class_def tail_ok_def cont_byte_iff)
next
  case f4
  then show ?thesis
    by (simp add: validate_step_def seq_class_def tail_ok_def cont_byte_iff not_less not_le)
next
  case bad
  then show ?thesis by (simp add: validate_step_def seq_class_def)
qed

lemma cont_nz: "(b :: byte) AND 0xC0 = 0x80 \<Longrightarrow> b \<noteq> 0"
  by auto

lemma sanitize_step_class:
  assumes "0 < maxLen"
  shows "sanitize_step str maxLen src dst =
     (case seq_class (rd str src) of
        None \<Rightarrow> put_replacement str maxLen src dst
      | Some (k, lo, hi) \<Rightarrow>
          if tail_ok k lo hi (rd str (src + 1)) (rd str (src + 2)) (rd str (src + 3))
          then copy_seq k str maxLen src dst
          else put_replacement str maxLen src dst)"
proof (cases "rd str src" rule: byte_cases)
  case ascii
  have "(maxLen - 1 \<le> dst) = (maxLen \<le> dst + 1)" using assms by auto
  with ascii show ?thesis
    by (simp add: sanitize_step_def seq_class_def tail_ok_def copy_seq_def)
next
  case two
  have "(rd str (src + 1) \<noteq> 0 \<and> rd str (src + 1) AND 0xC0 = 0x80)
      = tail_ok 2 0x80 0xBF (rd str (src + 1)) (rd str (src + 2)) (rd str (src + 3))"
    using cont_nz by (auto simp: tail_ok_def cont_byte_iff)
  then show ?thesis by (simp add: sanitize_step_def seq_class_def two)
next
  case e0
  have "(rd str (src + 1) \<noteq> 0 \<and> rd str (src + 2) \<noteq> 0
               \<and> rd str (src + 1) \<ge> 0xA0 \<and> rd str (src + 1) \<le> 0xBF
               \<and> rd str (src + 2) AND 0xC0 = 0x80)
      = tail_ok 3 0xA0 0xBF (rd str (src + 1)) (rd str (src + 2)) (rd str (src + 3))"
    using cont_nz nz by (auto simp: tail_ok_def)
  then show ?thesis by (simp add: sanitize_step_def seq_class_def e0)
next
  case e1
  have "(rd str (src + 1) \<noteq> 0 \<and> rd str (src + 2) \<noteq> 0
               \<and> rd str (src + 1) AND 0xC0 = 0x80
               \<and> rd str (src + 2) AND 0xC0 = 0x80)
      = tail_ok 3 0x80 0xBF (rd str (src + 1)) (rd str (src + 2)) (rd str (src + 3))"
    using cont_nz by (auto simp: tail_ok_def cont_byte_iff)
  then show ?thesis by (simp add: sanitize_step_def seq_class_def e1)
next
  case ed
  have "(rd str (src + 1) \<noteq> 0 \<and> rd str (src + 2) \<noteq> 0
               \<and> rd str (src + 1) \<ge> 0x80 \<and> rd str (src + 1) \<le> 0x9F
               \<and> rd str (src + 2) AND 0xC0 = 0x80)
      = tail_ok 3 0x80 0x9F (rd str (src + 1)) (rd str (src + 2)) (rd str (src + 3))"
    using cont_nz nz by (auto simp: tail_ok_def)
  then show ?thesis by (simp add: sanitize_step_def seq_class_def ed)
next
  case ee
  have "(rd str (src + 1) \<noteq> 0 \<and> rd str (src + 2) \<noteq> 0
               \<and> rd str (src + 1) AND 0xC0 = 0x80
               \<and> rd str (src + 2) AND 0xC0 = 0x80)
      = tail_ok 3 0x80 0xBF (rd str (src + 1)) (rd str (src + 2)) (rd str (src + 3))"
    using cont_nz by (auto simp: tail_ok_def cont_byte_iff)
  then show ?thesis by (simp add: sanitize_step_def seq_class_def ee)
next
  case f0
  have "(rd str (src + 1) \<noteq> 0 \<and> rd str (src + 2) \<noteq> 0 \<and> rd str (src + 3) \<noteq> 0
               \<and> rd str (src + 1) \<ge> 0x90 \<and> rd str (src + 1) \<le> 0xBF
               \<and> rd str (src + 2) AND 0xC0 = 0x80
               \<and> rd str (src + 3) AND 0xC0 = 0x80)
      = tail_ok 4 0x90 0xBF (rd str (src + 1)) (rd str (src + 2)) (rd str (src + 3))"
    using cont_nz nz by (auto simp: tail_ok_def)
  then show ?thesis by (simp add: sanitize_step_def seq_class_def f0)
next
  case f1
  have "(rd str (src + 1) \<noteq> 0 \<and> rd str (src + 2) \<noteq> 0 \<and> rd str (src + 3) \<noteq> 0
               \<and> rd str (src + 1) AND 0xC0 = 0x80
               \<and> rd str (src + 2) AND 0xC0 = 0x80
               \<and> rd str (src + 3) AND 0xC0 = 0x80)
      = tail_ok 4 0x80 0xBF (rd str (src + 1)) (rd str (src + 2)) (rd str (src + 3))"
    using cont_nz by (auto simp: tail_ok_def cont_byte_iff)
  then show ?thesis by (simp add: sanitize_step_def seq_class_def f1)
next
  case f4
  have "(rd str (src + 1) \<noteq> 0 \<and> rd str (src + 2) \<noteq> 0 \<and> rd str (src + 3) \<noteq> 0
               \<and> rd str (src + 1) \<ge> 0x80 \<and> rd str (src + 1) \<le> 0x8F
               \<and> rd str (src + 2) AND 0xC0 = 0x80
               \<and> rd str (src + 3) AND 0xC0 = 0x80)
      = tail_ok 4 0x80 0x8F (rd str (src + 1)) (rd str (src + 2)) (rd str (src + 3))"
    using cont_nz nz by (auto simp: tail_ok_def)
  then show ?thesis by (simp add: sanitize_step_def seq_class_def f4)
next
  case bad
  show ?thesis by (simp add: sanitize_step_def seq_class_def bad)
qed

lemma seq_class_range:
  assumes "seq_class a = Some (k, lo, hi)"
  shows "1 \<le> k \<and> k \<le> 4 \<and> (2 \<le> k \<longrightarrow> 0x80 \<le> lo \<and> hi \<le> 0xBF)"
  using assms by (auto simp: seq_class_def split: if_splits)

lemma seq_class_cont_all: "\<forall>a :: byte. a AND 0xC0 = 0x80 \<longrightarrow> seq_class a = None"
  by code_simp

lemma seq_class_cont: "(a :: byte) AND 0xC0 = 0x80 \<Longrightarrow> seq_class a = None"
  using seq_class_cont_all by blast

subsection \<open>Characters and sequences of characters\<close>

text \<open>A character is a non-zero lead byte with the bytes its class asks for; a valid text
  is a concatenation of characters.\<close>

definition is_char :: "byte list \<Rightarrow> bool" where
  "is_char c \<longleftrightarrow>
     (case seq_class (hd c) of
        None \<Rightarrow> False
      | Some (k, lo, hi) \<Rightarrow> hd c \<noteq> 0 \<and> length c = k \<and> tail_ok k lo hi (c ! 1) (c ! 2) (c ! 3))"

inductive utf8_ok :: "byte list \<Rightarrow> bool" where
  nil: "utf8_ok []"
| char: "is_char c \<Longrightarrow> utf8_ok cs \<Longrightarrow> utf8_ok (c @ cs)"

lemma tail_ok_cong:
  assumes "2 \<le> k \<Longrightarrow> b1 = c1" and "3 \<le> k \<Longrightarrow> b2 = c2" and "4 \<le> k \<Longrightarrow> b3 = c3"
  shows "tail_ok k lo hi b1 b2 b3 = tail_ok k lo hi c1 c2 c3"
  using assms unfolding tail_ok_def by auto

lemma is_char_class:
  assumes "is_char c"
  obtains lo hi where "seq_class (hd c) = Some (length c, lo, hi)"
    and "tail_ok (length c) lo hi (c ! 1) (c ! 2) (c ! 3)" and "hd c \<noteq> 0"
  using assms unfolding is_char_def by (auto split: option.splits)

lemma is_char_length:
  assumes "is_char c"
  shows "1 \<le> length c \<and> length c \<le> 4"
proof -
  from assms obtain lo hi where "seq_class (hd c) = Some (length c, lo, hi)"
    by (rule is_char_class)
  from seq_class_range [OF this] show ?thesis by blast
qed

lemma is_char_interior:
  assumes c: "is_char c" and j: "0 < j" "j < length c"
  shows "c ! j AND 0xC0 = 0x80"
proof -
  from c obtain lo hi where cl: "seq_class (hd c) = Some (length c, lo, hi)"
    and t: "tail_ok (length c) lo hi (c ! 1) (c ! 2) (c ! 3)"
    by (rule is_char_class)
  from seq_class_range [OF cl] j have r: "length c \<le> 4" "0x80 \<le> lo" "hi \<le> 0xBF" by auto
  from j r(1) consider "j = 1" | "j = 2" | "j = 3" by linarith
  then show ?thesis
  proof cases
    case 1
    with j t have "lo \<le> c ! 1" "c ! 1 \<le> hi" unfolding tail_ok_def by auto
    with r have "0x80 \<le> c ! 1 \<and> c ! 1 \<le> 0xBF" by (meson order_trans)
    with 1 show ?thesis by (simp only: cont_byte_iff)
  next
    case 2
    with j t show ?thesis unfolding tail_ok_def by auto
  next
    case 3
    with j t show ?thesis unfolding tail_ok_def by auto
  qed
qed

lemma is_char_hd: "is_char c \<Longrightarrow> hd c = c ! 0"
  using is_char_length [of c] by (cases c) auto

lemma is_char_nonzero:
  assumes c: "is_char c" and j: "j < length c"
  shows "c ! j \<noteq> 0"
proof (cases "j = 0")
  case True
  from c have "hd c \<noteq> 0" by (rule is_char_class)
  with True is_char_hd [OF c] show ?thesis by simp
next
  case False
  with is_char_interior [OF c _ j] have "c ! j AND 0xC0 = 0x80" by simp
  then show ?thesis by (rule cont_nz)
qed

lemma utf8_ok_append: "utf8_ok xs \<Longrightarrow> utf8_ok ys \<Longrightarrow> utf8_ok (xs @ ys)"
proof (induction rule: utf8_ok.induct)
  case nil
  then show ?case by simp
next
  case (char c cs)
  from char.hyps(1) char.IH [OF char.prems] have "utf8_ok (c @ (cs @ ys))"
    by (rule utf8_ok.char)
  then show ?case by simp
qed

lemma utf8_ok_snoc:
  assumes "utf8_ok xs" and "is_char c"
  shows "utf8_ok (xs @ c)"
proof -
  from assms(2) utf8_ok.nil have "utf8_ok (c @ [])" by (rule utf8_ok.char)
  with assms(1) show ?thesis by (simp add: utf8_ok_append)
qed

lemma utf8_ok_nonzero: "utf8_ok xs \<Longrightarrow> i < length xs \<Longrightarrow> xs ! i \<noteq> 0"
proof (induction arbitrary: i rule: utf8_ok.induct)
  case nil
  then show ?case by simp
next
  case (char c cs)
  show ?case
  proof (cases "i < length c")
    case True
    with is_char_nonzero [OF char.hyps(1)] show ?thesis by (simp add: nth_append)
  next
    case False
    with char.prems have "i - length c < length cs" by simp
    from char.IH [OF this] False show ?thesis by (simp add: nth_append)
  qed
qed

lemma utf8_ok_boundary:
  "utf8_ok xs \<Longrightarrow> i < length xs \<Longrightarrow> seq_class (xs ! i) = Some (k, lo, hi)
    \<Longrightarrow> i + k \<le> length xs"
proof (induction arbitrary: i rule: utf8_ok.induct)
  case nil
  then show ?case by simp
next
  case (char c cs)
  show ?case
  proof (cases "i < length c")
    case True
    with char.prems(2) have cl: "seq_class (c ! i) = Some (k, lo, hi)" by (simp add: nth_append)
    have "i = 0"
    proof (rule ccontr)
      assume "i \<noteq> 0"
      with is_char_interior [OF char.hyps(1) _ True] have "c ! i AND 0xC0 = 0x80" by simp
      from seq_class_cont [OF this] cl show False by simp
    qed
    from char.hyps(1) obtain lo1 hi1 where "seq_class (hd c) = Some (length c, lo1, hi1)"
      by (rule is_char_class)
    with cl \<open>i = 0\<close> is_char_hd [OF char.hyps(1)] have "k = length c" by simp
    with \<open>i = 0\<close> show ?thesis by simp
  next
    case False
    with char.prems have a: "i - length c < length cs"
      and b: "seq_class (cs ! (i - length c)) = Some (k, lo, hi)"
      by (simp_all add: nth_append)
    from char.IH [OF a b] False show ?thesis by simp
  qed
qed

lemma is_char_at:
  assumes cl: "seq_class (rd str src) = Some (k, lo, hi)"
    and t: "tail_ok k lo hi (rd str (src + 1)) (rd str (src + 2)) (rd str (src + 3))"
    and nz: "rd str src \<noteq> 0" and len: "src + k \<le> length str"
  shows "is_char (take k (drop src str))"
proof -
  let ?c = "take k (drop src str)"
  from seq_class_range [OF cl] have k: "1 \<le> k" by blast
  with len have lc: "length ?c = k" by simp
  have nth: "?c ! j = rd str (src + j)" if "j < k" for j
    using that len by (simp add: rd_def)
  from k lc have "hd ?c = ?c ! 0" by (cases ?c) auto
  with nth [of 0] k have hd: "hd ?c = rd str src" by simp
  have "tail_ok k lo hi (?c ! 1) (?c ! 2) (?c ! 3)
      = tail_ok k lo hi (rd str (src + 1)) (rd str (src + 2)) (rd str (src + 3))"
    by (rule tail_ok_cong) (simp_all only: nth)
  with t have "tail_ok k lo hi (?c ! 1) (?c ! 2) (?c ! 3)" by simp
  with cl nz show ?thesis unfolding is_char_def hd lc by simp
qed

lemma char_at_class:
  assumes c: "is_char c" and s: "s = pre @ c @ rest"
  obtains lo hi where "seq_class (rd s (length pre)) = Some (length c, lo, hi)"
    and "tail_ok (length c) lo hi (rd s (length pre + 1)) (rd s (length pre + 2))
           (rd s (length pre + 3))"
    and "rd s (length pre) \<noteq> 0"
proof -
  from c obtain lo hi where cl: "seq_class (hd c) = Some (length c, lo, hi)"
    and t: "tail_ok (length c) lo hi (c ! 1) (c ! 2) (c ! 3)" and nz: "hd c \<noteq> 0"
    by (rule is_char_class)
  have nth: "rd s (length pre + j) = c ! j" if "j < length c" for j
    using that s by (simp add: rd_def nth_append)
  from is_char_length [OF c] nth [of 0] is_char_hd [OF c]
  have hd: "rd s (length pre) = hd c" by (cases c) auto
  have "tail_ok (length c) lo hi (rd s (length pre + 1)) (rd s (length pre + 2))
           (rd s (length pre + 3)) = tail_ok (length c) lo hi (c ! 1) (c ! 2) (c ! 3)"
    by (rule tail_ok_cong) (simp_all only: nth)
  with t cl nz hd show ?thesis by (intro that) simp_all
qed

subsection \<open>One step of the sanitizer\<close>

text \<open>The sanitizer works in place, and a replacement marker is longer than the byte it
  replaces, so the write position can overtake the read position.  A sequence is copied
  byte by byte, which is a faithful copy only if the source does not overlap the
  destination from below: when the read position is behind the write position it reads
  what was already written, where a lead byte starts a character that ends before the
  write position.\<close>

lemma copy_run:
  assumes "src = dst \<or> src + k \<le> dst" and "dst + k \<le> length str"
  shows "(copy1 ^^ k) (str, src, dst)
       = (take dst str @ take k (drop src str) @ drop (dst + k) str, src + k, dst + k)"
  using assms
proof (induction k)
  case 0
  then show ?case by simp
next
  case (Suc k)
  let ?S = "take dst str @ take k (drop src str) @ drop (dst + k) str"
  from Suc.prems have sd: "src = dst \<or> src + k \<le> dst" and le: "dst + k \<le> length str"
    and lt: "dst + k < length str" and slt: "src + k < length str"
    by auto
  from Suc.IH [OF sd le] have run: "(copy1 ^^ k) (str, src, dst) = (?S, src + k, dst + k)" .
  from lt slt have len: "length ?S = length str" by simp
  have rd: "rd ?S (src + k) = str ! (src + k)"
  proof (cases "src = dst")
    case True
    with lt len show ?thesis by (simp add: rd_def nth_append)
  next
    case False
    with Suc.prems have "src + k < dst" by simp
    with lt len show ?thesis by (simp add: rd_def nth_append)
  qed
  have upd: "?S[dst + k := str ! (src + k)]
      = take dst str @ take (Suc k) (drop src str) @ drop (dst + Suc k) str"
  proof -
    let ?P = "take dst str @ take k (drop src str)"
    from lt slt have lp: "length ?P = dst + k" by simp
    from lt have d: "drop (dst + k) str = str ! (dst + k) # drop (dst + Suc k) str"
      using Cons_nth_drop_Suc [of "dst + k" str] by simp
    have "?S = ?P @ str ! (dst + k) # drop (dst + Suc k) str"
      by (simp only: d append_assoc)
    then have "?S[dst + k := str ! (src + k)]
        = (?P @ str ! (dst + k) # drop (dst + Suc k) str)[length ?P := str ! (src + k)]"
      by (simp only: lp)
    also have "\<dots> = ?P @ str ! (src + k) # drop (dst + Suc k) str"
      by (rule list_update_length)
    also have "\<dots> = take dst str @ (take k (drop src str) @ [str ! (src + k)])
        @ drop (dst + Suc k) str"
      by simp
    also from slt have "take k (drop src str) @ [str ! (src + k)] = take (Suc k) (drop src str)"
      by (simp add: take_Suc_conv_app_nth)
    finally show ?thesis .
  qed
  have "(copy1 ^^ Suc k) (str, src, dst) = copy1 (?S, src + k, dst + k)"
    by (simp only: funpow.simps o_apply run)
  also have "\<dots> = (?S[dst + k := str ! (src + k)], src + Suc k, dst + Suc k)"
    by (simp add: copy1_def rd)
  finally show ?case by (simp only: upd)
qed

lemma is_char_replacement: "is_char replacement"
  by (simp add: is_char_def replacement_def seq_class_def tail_ok_def)

lemma is_char_question: "is_char [0x3F]"
  by (simp add: is_char_def seq_class_def tail_ok_def)

definition spliced :: "byte list \<Rightarrow> nat \<Rightarrow> byte list \<Rightarrow> byte list" where
  "spliced str dst c = take dst str @ c @ drop (dst + length c) str"

lemma spliced_facts:
  assumes "dst + length c \<le> m" and "m \<le> length str"
  shows "take (dst + length c) (spliced str dst c) = take dst str @ c"
    and "length (spliced str dst c) = length str"
    and "drop m (spliced str dst c) = drop m str"
  using assms by (simp_all add: spliced_def)

lemma put_replacement_shape:
  assumes "put_replacement str maxLen src dst = Some (str1, src1, dst1)"
    and "maxLen \<le> length str"
  shows "\<exists>c. is_char c \<and> str1 = spliced str dst c \<and> dst1 = dst + length c
          \<and> src1 = src + 1 \<and> dst1 < maxLen \<and> 1 \<le> length c"
proof (cases "dst + 3 < maxLen")
  case True
  with assms(1) have "str1 = memcpy str dst replacement 3" "src1 = src + 1" "dst1 = dst + 3"
    by (simp_all add: put_replacement_def)
  moreover have "memcpy str dst replacement 3 = spliced str dst replacement"
    by (simp add: memcpy_def spliced_def replacement_def numeral_3_eq_3)
  moreover have "length replacement = 3" by (simp add: replacement_def)
  ultimately show ?thesis using True is_char_replacement by auto
next
  case False
  with assms(1) have lt: "dst < maxLen - 1"
    and r: "str1 = str[dst := 0x3F]" "src1 = src + 1" "dst1 = dst + 1"
    by (simp_all add: put_replacement_def split: if_splits)
  from lt assms(2) have "str[dst := 0x3F] = spliced str dst [0x3F]"
    by (simp add: spliced_def upd_conv_take_nth_drop)
  with r lt is_char_question show ?thesis by auto
qed

lemma copy_seq_shape:
  assumes st: "copy_seq k str maxLen src dst = Some (str1, src1, dst1)"
    and m: "maxLen \<le> length str" and sd: "src = dst \<or> src + k \<le> dst"
  shows "str1 = spliced str dst (take k (drop src str)) \<and> dst1 = dst + k
          \<and> src1 = src + k \<and> dst1 < maxLen \<and> length (take k (drop src str)) = k"
proof -
  from st have lt: "dst + k < maxLen" and r: "(copy1 ^^ k) (str, src, dst) = (str1, src1, dst1)"
    by (simp_all add: copy_seq_def split: if_splits)
  from lt m have le: "dst + k \<le> length str" by simp
  from sd le have lc: "length (take k (drop src str)) = k" by auto
  from copy_run [OF sd le] r lc lt show ?thesis by (simp add: spliced_def)
qed

lemma sanitize_step_shape:
  assumes m: "0 < maxLen" "maxLen \<le> length str"
    and ok: "utf8_ok (take dst str)" and sd: "src \<le> dst" and nz: "rd str src \<noteq> 0"
    and st: "sanitize_step str maxLen src dst = Some (str1, src1, dst1)"
  shows "\<exists>c. is_char c \<and> str1 = spliced str dst c \<and> dst1 = dst + length c
          \<and> src < src1 \<and> src1 \<le> dst1 \<and> dst1 < maxLen"
proof (cases "seq_class (rd str src)")
  case None
  with st m(1) have "put_replacement str maxLen src dst = Some (str1, src1, dst1)"
    by (simp add: sanitize_step_class)
  from put_replacement_shape [OF this m(2)] sd show ?thesis by auto
next
  case (Some t)
  then obtain k lo hi where cl: "seq_class (rd str src) = Some (k, lo, hi)"
    by (cases t) auto
  show ?thesis
  proof (cases "tail_ok k lo hi (rd str (src + 1)) (rd str (src + 2)) (rd str (src + 3))")
    case False
    with st m(1) cl have "put_replacement str maxLen src dst = Some (str1, src1, dst1)"
      by (simp add: sanitize_step_class)
    from put_replacement_shape [OF this m(2)] sd show ?thesis by auto
  next
    case True
    with st m(1) cl have cs: "copy_seq k str maxLen src dst = Some (str1, src1, dst1)"
      by (simp add: sanitize_step_class)
    then have lt: "dst + k < maxLen" by (simp add: copy_seq_def split: if_splits)
    have ov: "src = dst \<or> src + k \<le> dst"
    proof (cases "src = dst")
      case False
      with sd have l: "src < dst" by simp
      with lt m(2) have "src < length (take dst str)" by simp
      moreover from l lt m(2) have "take dst str ! src = rd str src" by (simp add: rd_def)
      ultimately have "src + k \<le> length (take dst str)"
        using utf8_ok_boundary [OF ok, of src k lo hi] cl by simp
      then show ?thesis by simp
    qed simp
    from copy_seq_shape [OF cs m(2) ov]
    have sh: "str1 = spliced str dst (take k (drop src str))" "dst1 = dst + k"
      "src1 = src + k" "dst1 < maxLen" "length (take k (drop src str)) = k"
      by blast+
    from ov lt m(2) have "src + k \<le> length str" by auto
    from is_char_at [OF cl True nz this] have "is_char (take k (drop src str))" .
    moreover from seq_class_range [OF cl] have "1 \<le> k" by blast
    ultimately show ?thesis using sh sd by auto
  qed
qed

lemma sanitize_step_inv:
  assumes m: "0 < maxLen" "maxLen \<le> length str"
    and ok: "utf8_ok (take dst str)" and sd: "src \<le> dst" and nz: "rd str src \<noteq> 0"
    and st: "sanitize_step str maxLen src dst = Some (str1, src1, dst1)"
  shows "utf8_ok (take dst1 str1) \<and> src1 \<le> dst1 \<and> dst1 < maxLen
          \<and> length str1 = length str \<and> drop maxLen str1 = drop maxLen str"
proof -
  from sanitize_step_shape [OF assms] obtain c
    where c: "is_char c" and s: "str1 = spliced str dst c" and d: "dst1 = dst + length c"
      and r: "src1 \<le> dst1" "dst1 < maxLen"
    by blast
  from d r(2) have le: "dst + length c \<le> maxLen" by simp
  from spliced_facts [OF le m(2)] s d
  have "take dst1 str1 = take dst str @ c" "length str1 = length str"
    "drop maxLen str1 = drop maxLen str"
    by simp_all
  with utf8_ok_snoc [OF ok c] r show ?thesis by simp
qed

lemma sanitize_loop_inv:
  "0 < maxLen \<Longrightarrow> maxLen \<le> length str \<Longrightarrow> utf8_ok (take dst str) \<Longrightarrow> src \<le> dst \<Longrightarrow> dst < maxLen
    \<Longrightarrow> sanitize_loop str maxLen src dst = (s, n)
    \<Longrightarrow> utf8_ok (take n s) \<and> n < maxLen \<and> length s = length str
          \<and> drop maxLen s = drop maxLen str"
proof (induction str maxLen src dst rule: sanitize_loop.induct)
  case (1 str maxLen src dst)
  show ?case
  proof (cases "rd str src = 0")
    case True
    with "1.prems" show ?thesis by (simp add: sanitize_loop.simps)
  next
    case nz: False
    show ?thesis
    proof (cases "sanitize_step str maxLen src dst")
      case None
      with nz "1.prems" show ?thesis by (simp add: sanitize_loop.simps)
    next
      case (Some t)
      then obtain str1 src1 dst1
        where st: "sanitize_step str maxLen src dst = Some (str1, src1, dst1)"
        by (cases t) auto
      from sanitize_step_inv [OF "1.prems"(1,2,3,4) nz st]
      have inv: "utf8_ok (take dst1 str1)" "src1 \<le> dst1" "dst1 < maxLen"
        "length str1 = length str" "drop maxLen str1 = drop maxLen str"
        by blast+
      from nz st "1.prems"(6) have sl: "sanitize_loop str1 maxLen src1 dst1 = (s, n)"
        by (simp add: sanitize_loop.simps [of str])
      from "1.prems"(2) inv(4) have "maxLen \<le> length str1" by simp
      from "1.IH" [OF nz st refl refl "1.prems"(1) this inv(1,2,3) sl] inv(4,5)
      show ?thesis by simp
    qed
  qed
qed

subsection \<open>The result is valid and sanitizing it again changes nothing\<close>

lemma validate_loop_ok:
  "utf8_ok cs \<Longrightarrow> s = pre @ cs @ 0 # rest \<Longrightarrow> validate_loop s (length pre)"
proof (induction arbitrary: pre rule: utf8_ok.induct)
  case nil
  then have "rd s (length pre) = 0" by (simp add: rd_def)
  then show ?case by (simp add: validate_loop.simps)
next
  case (char c cs)
  from char.prems have s: "s = pre @ c @ (cs @ 0 # rest)" by simp
  from char.hyps(1) s obtain lo hi
    where cl: "seq_class (rd s (length pre)) = Some (length c, lo, hi)"
      and t: "tail_ok (length c) lo hi (rd s (length pre + 1)) (rd s (length pre + 2))
               (rd s (length pre + 3))"
      and nz: "rd s (length pre) \<noteq> 0"
    by (rule char_at_class)
  from cl t have st: "validate_step s (length pre) = Some (length c)"
    by (simp add: validate_step_class)
  from char.prems have "s = (pre @ c) @ cs @ 0 # rest" by simp
  from char.IH [OF this] have "validate_loop s (length pre + length c)" by simp
  with nz st show ?case by (simp add: validate_loop.simps [of s "length pre"])
qed

lemma sanitize_loop_id:
  "utf8_ok cs \<Longrightarrow> s = pre @ cs @ 0 # rest \<Longrightarrow> length pre + length cs < maxLen
    \<Longrightarrow> sanitize_loop s maxLen (length pre) (length pre) = (s, length pre + length cs)"
proof (induction arbitrary: pre rule: utf8_ok.induct)
  case nil
  then have "rd s (length pre) = 0" by (simp add: rd_def)
  then show ?case by (simp add: sanitize_loop.simps)
next
  case (char c cs)
  let ?p = "length pre"
  from char.prems have s: "s = pre @ c @ (cs @ 0 # rest)" by simp
  from char.hyps(1) s obtain lo hi
    where cl: "seq_class (rd s ?p) = Some (length c, lo, hi)"
      and t: "tail_ok (length c) lo hi (rd s (?p + 1)) (rd s (?p + 2)) (rd s (?p + 3))"
      and nz: "rd s ?p \<noteq> 0"
    by (rule char_at_class)
  from char.prems(2) have m: "0 < maxLen" and lt: "?p + length c < maxLen" by simp_all
  from s have le: "?p + length c \<le> length s" by simp
  have "(copy1 ^^ length c) (s, ?p, ?p)
      = (take ?p s @ take (length c) (drop ?p s) @ drop (?p + length c) s,
         ?p + length c, ?p + length c)"
    by (rule copy_run) (simp_all add: le)
  also have "take ?p s @ take (length c) (drop ?p s) @ drop (?p + length c) s = s"
    by (metis add.commute append_take_drop_id drop_drop)
  finally have "copy_seq (length c) s maxLen ?p ?p = Some (s, ?p + length c, ?p + length c)"
    using lt by (simp add: copy_seq_def)
  with cl t m have st: "sanitize_step s maxLen ?p ?p = Some (s, ?p + length c, ?p + length c)"
    by (simp add: sanitize_step_class)
  from char.prems have "s = (pre @ c) @ cs @ 0 # rest"
    and "length (pre @ c) + length cs < maxLen"
    by simp_all
  from char.IH [OF this]
  have "sanitize_loop s maxLen (?p + length c) (?p + length c) = (s, ?p + length c + length cs)"
    by simp
  with nz st show ?case by (simp add: sanitize_loop.simps [of s maxLen ?p] add.assoc)
qed

lemma sanitizeUtf8_shape:
  assumes m: "0 < maxLen" "maxLen \<le> length str" and r: "sanitizeUtf8 str maxLen = (str1, n)"
  shows "utf8_ok (take n str1) \<and> n < maxLen \<and> length str1 = length str
          \<and> drop maxLen str1 = drop maxLen str \<and> str1 = take n str1 @ 0 # drop (Suc n) str1"
proof -
  obtain s d where sl: "sanitize_loop str maxLen 0 0 = (s, d)"
    by (cases "sanitize_loop str maxLen 0 0") auto
  have "utf8_ok (take 0 str)" by (simp add: utf8_ok.nil)
  from sanitize_loop_inv [OF m this _ _ sl] m(1)
  have inv: "utf8_ok (take d s)" "d < maxLen" "length s = length str"
    "drop maxLen s = drop maxLen str"
    by simp_all
  from r sl m(1) inv(2) have e: "str1 = s[d := 0]" "n = d" by (auto simp: sanitizeUtf8_def)
  from inv(2,3) m(2) have dl: "d < length s" by simp
  then have u: "s[d := 0] = take d s @ 0 # drop (Suc d) s" by (rule upd_conv_take_nth_drop)
  from dl have t: "take d (s[d := 0]) = take d s" by simp
  from inv(2) have "drop maxLen (s[d := 0]) = drop maxLen s" by simp
  with inv e t u dl show ?thesis by simp
qed

lemma sanitizeUtf8_valid:
  assumes m: "0 < maxLen" "maxLen \<le> length str" and r: "sanitizeUtf8 str maxLen = (str1, n)"
  shows "validateUtf8 str1"
proof -
  from sanitizeUtf8_shape [OF assms]
  have ok: "utf8_ok (take n str1)" and s: "str1 = [] @ take n str1 @ 0 # drop (Suc n) str1"
    by simp_all
  from validate_loop_ok [OF ok s] show ?thesis by (simp add: validateUtf8_def)
qed

lemma sanitizeUtf8_again:
  assumes m: "0 < maxLen" "maxLen \<le> length str" and r: "sanitizeUtf8 str maxLen = (str1, n)"
  shows "sanitizeUtf8 str1 maxLen = (str1, n)"
proof -
  from sanitizeUtf8_shape [OF assms]
  have ok: "utf8_ok (take n str1)" and s: "str1 = [] @ take n str1 @ 0 # drop (Suc n) str1"
    and n: "n < maxLen" and l: "length str1 = length str"
    by simp_all
  from n l m(2) have ln: "length (take n str1) = n" by simp
  with n have "length ([] :: byte list) + length (take n str1) < maxLen" by simp
  from sanitize_loop_id [OF ok s this] ln
  have sl: "sanitize_loop str1 maxLen 0 0 = (str1, n)" by simp
  from s have "str1 ! n = 0" by (metis append_Nil ln nth_append_length)
  then have "str1[n := 0] = str1" by (metis list_update_id)
  with sl n m(1) show ?thesis by (simp add: sanitizeUtf8_def)
qed


text \<open>C1: for a buffer of at least \<open>maxLen\<close> bytes and a capacity \<open>maxLen\<close> of at least 1,
  whatever bytes the buffer holds, \<^verbatim>\<open>validateUtf8\<close> accepts the buffer that \<^verbatim>\<open>sanitizeUtf8\<close>
  leaves, sanitizing that buffer again returns the same buffer and the same length, the
  returned length is below the capacity with the terminator at that index, and no byte at
  or past the capacity is changed.\<close>

theorem sanitize_idempotent_and_valid:
  assumes "0 < maxLen" and "maxLen \<le> length str" and "sanitizeUtf8 str maxLen = (str1, n)"
  shows "validateUtf8 str1 \<and> sanitizeUtf8 str1 maxLen = (str1, n)
          \<and> n < maxLen \<and> rd str1 n = 0
          \<and> length str1 = length str \<and> drop maxLen str1 = drop maxLen str"
proof -
  from sanitizeUtf8_shape [OF assms]
  have n: "n < maxLen" and l: "length str1 = length str"
    and d: "drop maxLen str1 = drop maxLen str"
    and s: "str1 = take n str1 @ 0 # drop (Suc n) str1"
    by simp_all
  from n l assms(2) have "length (take n str1) = n" by simp
  with s have "str1 ! n = 0" by (metis nth_append_length)
  with n l assms(2) have "rd str1 n = 0" by (simp add: rd_def)
  with sanitizeUtf8_valid [OF assms] sanitizeUtf8_again [OF assms] n l d show ?thesis by simp
qed

theorem sanitize_idempotent_and_valid_witness:
  "sanitizeUtf8 [0x41, 0xC3, 0x28, 0, 0, 0, 0, 0] 8
     = ([0x41, 0xEF, 0xBF, 0xBD, 0xEF, 0xBF, 0xBD, 0], 7)
   \<and> validateUtf8 [0x41, 0xEF, 0xBF, 0xBD, 0xEF, 0xBF, 0xBD, 0]
   \<and> sanitizeUtf8 [0x41, 0xEF, 0xBF, 0xBD, 0xEF, 0xBF, 0xBD, 0] 8
     = ([0x41, 0xEF, 0xBF, 0xBD, 0xEF, 0xBF, 0xBD, 0], 7)"
proof -
  have h: "sanitizeUtf8 [0x41, 0xC3, 0x28, 0, 0, 0, 0, 0] 8
     = ([0x41, 0xEF, 0xBF, 0xBD, 0xEF, 0xBF, 0xBD, 0], 7)"
    by code_simp
  have "(0 :: nat) < 8" and "(8 :: nat) \<le> length [0x41 :: byte, 0xC3, 0x28, 0, 0, 0, 0, 0]"
    by simp_all
  from sanitize_idempotent_and_valid [OF this h] h show ?thesis by blast
qed

end
